theory Spec2Isabelle
  imports Complex_Main "HOL-Library.Monad_Syntax" "HOL-Library.Multiset"
begin

section \<open>Numbers\<close>

text \<open>
  A JavaScript number is a finite value, one of the two infinities, or NaN. Finite values
  are carried as reals; the two zeros are not told apart (every operation below gives the
  same result on both, up to the sign of a zero).

  \<open>js_add\<close> and \<open>js_mul\<close> are the exact sum and product, used where the double-precision
  result is the exact one: in \<open>audioBufferToWav\<close> (a float32 sample times a 15- or 16-bit
  constant, a float32 sample plus one half compared with zero), and for the sum of two
  float32 samples in \<open>mixAudioTracks\<close>, which is stored into a \<open>Float32Array\<close> and rounded
  there to the nearest float32 by \<open>fround\<close> (for two float32 operands, rounding the double
  sum to float32 gives the correctly rounded float32 sum). The arithmetic on times and
  sample positions is double-precision arithmetic with its rounding: \<open>d_add\<close> and \<open>d_mul\<close>
  below.
\<close>

datatype js_num = Fin real | PosInf | NegInf | NaN

fun js_add :: "js_num \<Rightarrow> js_num \<Rightarrow> js_num" where
  "js_add NaN _ = NaN"
| "js_add _ NaN = NaN"
| "js_add PosInf NegInf = NaN"
| "js_add NegInf PosInf = NaN"
| "js_add PosInf _ = PosInf"
| "js_add _ PosInf = PosInf"
| "js_add NegInf _ = NegInf"
| "js_add _ NegInf = NegInf"
| "js_add (Fin a) (Fin b) = Fin (a + b)"

fun js_mul :: "js_num \<Rightarrow> js_num \<Rightarrow> js_num" where
  "js_mul NaN _ = NaN"
| "js_mul _ NaN = NaN"
| "js_mul (Fin a) (Fin b) = Fin (a * b)"
| "js_mul (Fin a) PosInf = (if a = 0 then NaN else if 0 < a then PosInf else NegInf)"
| "js_mul (Fin a) NegInf = (if a = 0 then NaN else if 0 < a then NegInf else PosInf)"
| "js_mul PosInf (Fin b) = (if b = 0 then NaN else if 0 < b then PosInf else NegInf)"
| "js_mul NegInf (Fin b) = (if b = 0 then NaN else if 0 < b then NegInf else PosInf)"
| "js_mul PosInf PosInf = PosInf"
| "js_mul NegInf NegInf = PosInf"
| "js_mul PosInf NegInf = NegInf"
| "js_mul NegInf PosInf = NegInf"

text \<open>\<open>a < b\<close>: false as soon as one side is NaN.\<close>

fun js_less :: "js_num \<Rightarrow> js_num \<Rightarrow> bool" where
  "js_less NaN _ = False"
| "js_less _ NaN = False"
| "js_less (Fin a) (Fin b) = (a < b)"
| "js_less NegInf NegInf = False"
| "js_less NegInf _ = True"
| "js_less _ NegInf = False"
| "js_less PosInf _ = False"
| "js_less (Fin a) PosInf = True"

fun Math_min :: "js_num \<Rightarrow> js_num \<Rightarrow> js_num" where
  "Math_min NaN _ = NaN"
| "Math_min _ NaN = NaN"
| "Math_min NegInf _ = NegInf"
| "Math_min _ NegInf = NegInf"
| "Math_min PosInf b = b"
| "Math_min a PosInf = a"
| "Math_min (Fin a) (Fin b) = Fin (min a b)"

fun Math_max :: "js_num \<Rightarrow> js_num \<Rightarrow> js_num" where
  "Math_max NaN _ = NaN"
| "Math_max _ NaN = NaN"
| "Math_max PosInf _ = PosInf"
| "Math_max _ PosInf = PosInf"
| "Math_max NegInf b = b"
| "Math_max a NegInf = a"
| "Math_max (Fin a) (Fin b) = Fin (max a b)"

text \<open>Truncation toward zero, and the \<open>ToInt32\<close> conversion behind \<open>x | 0\<close>: NaN and the
  infinities give 0, a finite value is truncated and wrapped into the signed 32-bit range.\<close>

definition js_trunc :: "real \<Rightarrow> int" where
  "js_trunc y = (if y < 0 then \<lceil>y\<rceil> else \<lfloor>y\<rfloor>)"

fun ToInt32 :: "js_num \<Rightarrow> int" where
  "ToInt32 (Fin y) =
     (let m = js_trunc y mod 2 ^ 32 in if 2 ^ 31 \<le> m then m - 2 ^ 32 else m)"
| "ToInt32 _ = 0"

subsection \<open>Float32 storage\<close>

text \<open>
  The spacing of the float32 numbers around a magnitude \<open>a\<close>: \<open>2 ^ (e - 23)\<close> for
  \<open>2 ^ e \<le> a < 2 ^ (e + 1)\<close>, and \<open>2 ^ -149\<close> below \<open>2 ^ -126\<close> (the subnormal range). The
  exponent is found by a binary search on eight step sizes.
\<close>

fun f32_ulp_search :: "nat list \<Rightarrow> real \<Rightarrow> real \<Rightarrow> real" where
  "f32_ulp_search [] q a = q"
| "f32_ulp_search (s # ss) q a =
     (if q * 2 ^ s * 2 ^ 23 \<le> a then f32_ulp_search ss (q * 2 ^ s) a
      else f32_ulp_search ss q a)"

definition f32_ulp :: "real \<Rightarrow> real" where
  "f32_ulp x = f32_ulp_search [128, 64, 32, 16, 8, 4, 2, 1] (1 / 2 ^ 149) \<bar>x\<bar>"

definition round_half_even :: "real \<Rightarrow> int" where
  "round_half_even x =
     (let f = \<lfloor>x\<rfloor>; d = x - of_int f
      in if d < 1 / 2 then f else if 1 / 2 < d then f + 1 else if even f then f else f + 1)"

text \<open>Round to the nearest float32, ties to the even significand; a result of magnitude
  \<open>2 ^ 128\<close> is an infinity.\<close>

definition fround :: "real \<Rightarrow> js_num" where
  "fround x =
     (let q = f32_ulp x; r = of_int (round_half_even (x / q)) * q
      in if 2 ^ 128 \<le> r then PosInf else if r \<le> - (2 ^ 128) then NegInf else Fin r)"

fun to_f32 :: "js_num \<Rightarrow> js_num" where
  "to_f32 (Fin x) = fround x"
| "to_f32 v = v"

text \<open>The values a \<open>Float32Array\<close> can hold.\<close>

definition is_f32 :: "js_num \<Rightarrow> bool" where
  "is_f32 v = (to_f32 v = v)"

text \<open>
  Reading a \<open>Float32Array\<close> at an integer index (the encoder's \<open>channels[i][pos]\<close>). A read
  out of range is \<open>undefined\<close>, which every arithmetic use turns into NaN.
\<close>

definition f32_get :: "js_num list \<Rightarrow> int \<Rightarrow> js_num" where
  "f32_get arr k = (if 0 \<le> k \<and> k < int (length arr) then arr ! nat k else NaN)"

subsection \<open>Double precision\<close>

text \<open>
  The spacing of the doubles around a magnitude \<open>a\<close>: \<open>2 ^ (e - 52)\<close> for
  \<open>2 ^ e \<le> a < 2 ^ (e + 1)\<close>, and \<open>2 ^ -1074\<close> below \<open>2 ^ -1022\<close>; rounding to the nearest
  double, ties to the even significand, a result of magnitude \<open>2 ^ 1024\<close> being an
  infinity; and the sum and the product of two numbers as the machine computes them.
\<close>

fun f64_ulp_search :: "nat list \<Rightarrow> real \<Rightarrow> real \<Rightarrow> real" where
  "f64_ulp_search [] q a = q"
| "f64_ulp_search (s # ss) q a =
     (if q * 2 ^ s * 2 ^ 52 \<le> a then f64_ulp_search ss (q * 2 ^ s) a
      else f64_ulp_search ss q a)"

definition f64_min :: real where
  "f64_min = 1 / 2 ^ 1074"

definition f64_ulp :: "real \<Rightarrow> real" where
  "f64_ulp x = f64_ulp_search [1024, 512, 256, 128, 64, 32, 16, 8, 4, 2, 1] f64_min \<bar>x\<bar>"

definition dround :: "real \<Rightarrow> js_num" where
  "dround x =
     (let q = f64_ulp x; r = of_int (round_half_even (x / q)) * q
      in if 2 ^ 1024 \<le> r then PosInf else if r \<le> - (2 ^ 1024) then NegInf else Fin r)"

text \<open>The value that \<open>dround\<close> rounds to, before the check for overflow.\<close>

definition dvalue :: "real \<Rightarrow> real" where
  "dvalue x = of_int (round_half_even (x / f64_ulp x)) * f64_ulp x"

fun to_f64 :: "js_num \<Rightarrow> js_num" where
  "to_f64 (Fin x) = dround x"
| "to_f64 v = v"

text \<open>The values a JavaScript number can hold.\<close>

definition is_f64 :: "js_num \<Rightarrow> bool" where
  "is_f64 v = (to_f64 v = v)"

definition d_add :: "js_num \<Rightarrow> js_num \<Rightarrow> js_num" where
  "d_add a b = to_f64 (js_add a b)"

definition d_mul :: "js_num \<Rightarrow> js_num \<Rightarrow> js_num" where
  "d_mul a b = to_f64 (js_mul a b)"

fun Math_floor :: "js_num \<Rightarrow> js_num" where
  "Math_floor (Fin x) = Fin (of_int \<lfloor>x\<rfloor>)"
| "Math_floor v = v"

fun Math_ceil :: "js_num \<Rightarrow> js_num" where
  "Math_ceil (Fin x) = Fin (of_int \<lceil>x\<rceil>)"
| "Math_ceil v = v"

text \<open>The conversion of a number to an \<open>unsigned long\<close> argument of a platform call: NaN
  and the infinities give 0, a finite value is truncated and taken modulo \<open>2 ^ 32\<close>.\<close>

fun to_unsigned_long :: "js_num \<Rightarrow> nat" where
  "to_unsigned_long (Fin x) = nat (js_trunc x mod 2 ^ 32)"
| "to_unsigned_long _ = 0"

text \<open>
  Reading and writing a \<open>Float32Array\<close> at an index that is a number: the index names an
  element when it is a whole number from 0 to below the length. A read at any other index is
  \<open>undefined\<close> (NaN in arithmetic), a write at any other index is ignored; a write stores
  the value as a float32.
\<close>

definition array_index :: "js_num \<Rightarrow> nat \<Rightarrow> nat option" where
  "array_index k n =
     (case k of
        Fin r \<Rightarrow> if r = of_int \<lfloor>r\<rfloor> \<and> 0 \<le> r \<and> r < real n then Some (nat \<lfloor>r\<rfloor>) else None
      | _ \<Rightarrow> None)"

definition typed_get :: "js_num list \<Rightarrow> js_num \<Rightarrow> js_num" where
  "typed_get arr k = (case array_index k (length arr) of Some i \<Rightarrow> arr ! i | None \<Rightarrow> NaN)"

definition typed_set :: "js_num list \<Rightarrow> js_num \<Rightarrow> js_num \<Rightarrow> js_num list" where
  "typed_set arr k v =
     (case array_index k (length arr) of Some i \<Rightarrow> arr[i := to_f32 v] | None \<Rightarrow> arr)"

section \<open>Audio buffers and tracks\<close>

text \<open>
  An \<open>AudioBuffer\<close>: its sample rate (a whole number of hertz), its \<open>length\<close> in frames
  (here \<open>length_frames\<close>) and one \<open>Float32Array\<close> per channel. \<open>numberOfChannels\<close> is the
  number of channel arrays, and \<open>getChannelData\<close> throws (here \<open>None\<close>) for a channel the
  buffer does not have.
\<close>

record AudioBuffer =
  sampleRate :: nat
  length_frames :: nat
  channelData :: "js_num list list"

definition numberOfChannels :: "AudioBuffer \<Rightarrow> nat" where
  "numberOfChannels b = length (channelData b)"

definition getChannelData :: "AudioBuffer \<Rightarrow> nat \<Rightarrow> js_num list option" where
  "getChannelData b c = (if c < numberOfChannels b then Some (channelData b ! c) else None)"

text \<open>
  \<open>context.createBuffer\<close>: the length is converted to an \<open>unsigned long\<close>; the call throws a
  \<open>NotSupportedError\<close> (here \<open>None\<close>) for no channels or a length of 0, and returns a
  zero-filled buffer otherwise. The calls of this program pass 2 channels and the rate
  44100, which every implementation supports; limits of memory are not modelled.
\<close>

definition createBuffer :: "nat \<Rightarrow> js_num \<Rightarrow> nat \<Rightarrow> AudioBuffer option" where
  "createBuffer numOfChannels len rate =
     (let n = to_unsigned_long len
      in if numOfChannels = 0 \<or> n = 0 then None
         else Some \<lparr>sampleRate = rate, length_frames = n,
                     channelData = replicate numOfChannels (replicate n (Fin 0))\<rparr>)"

section \<open>The encoder: \<open>audioBufferToWav\<close>\<close>

subsection \<open>Sample conversion (lines 101 and 102)\<close>

definition clamp_sample :: "js_num \<Rightarrow> js_num" where
  "clamp_sample x = Math_max (Fin (- 1)) (Math_min (Fin 1) x)"

definition sample16 :: "js_num \<Rightarrow> int" where
  "sample16 x =
     (let sample = clamp_sample x
      in ToInt32 (if js_less (js_add (Fin (1 / 2)) sample) (Fin 0)
                  then js_mul sample (Fin 32768) else js_mul sample (Fin 32767)))"

text \<open>The conversion as the specification words it: the clamped value times 32768 when
  it is negative or zero, times 32767 when it is positive, truncated toward zero.\<close>

definition spec_sample16 :: "real \<Rightarrow> int" where
  "spec_sample16 x =
     (let c = max (- 1) (min 1 x)
      in if c \<le> 0 then js_trunc (c * 32768) else js_trunc (c * 32767))"

subsection \<open>The byte view\<close>

text \<open>
  The \<open>DataView\<close> over the output bytes and the running \<open>offset\<close> of the closure. A write
  that does not fit throws a \<open>RangeError\<close> (here \<open>None\<close>). All writes are little-endian.
\<close>

record wav_writer =
  view :: "nat list"
  offset :: nat

fun le_bytes :: "nat \<Rightarrow> nat \<Rightarrow> nat list" where
  "le_bytes 0 v = []"
| "le_bytes (Suc n) v = (v mod 256) # le_bytes n (v div 256)"

definition view_set :: "nat \<Rightarrow> nat list \<Rightarrow> nat list \<Rightarrow> nat list option" where
  "view_set byteOffset bs arr =
     (if byteOffset + length bs \<le> length arr
      then Some (take byteOffset arr @ bs @ drop (byteOffset + length bs) arr) else None)"

definition setUint16 :: "nat \<Rightarrow> wav_writer \<Rightarrow> wav_writer option" where
  "setUint16 data w =
     (case view_set (offset w) (le_bytes 2 (data mod 65536)) (view w) of
        None \<Rightarrow> None
      | Some v \<Rightarrow> Some \<lparr>view = v, offset = offset w + 2\<rparr>)"

definition setUint32 :: "nat \<Rightarrow> wav_writer \<Rightarrow> wav_writer option" where
  "setUint32 data w =
     (case view_set (offset w) (le_bytes 4 (data mod 4294967296)) (view w) of
        None \<Rightarrow> None
      | Some v \<Rightarrow> Some \<lparr>view = v, offset = offset w + 4\<rparr>)"

text \<open>\<open>view.setInt16(offset, sample, true); offset += 2\<close> of the sample loop.\<close>

definition setInt16 :: "int \<Rightarrow> wav_writer \<Rightarrow> wav_writer option" where
  "setInt16 sample w =
     (case view_set (offset w) (le_bytes 2 (nat (sample mod 65536))) (view w) of
        None \<Rightarrow> None
      | Some v \<Rightarrow> Some \<lparr>view = v, offset = offset w + 2\<rparr>)"

subsection \<open>The sample loops\<close>

text \<open>The inner \<open>for\<close> loop over the channels of frame \<open>pos\<close>; \<open>channels\<close> holds one array
  per channel of the buffer, so \<open>numOfChan\<close> is its length.\<close>

function write_channels ::
  "js_num list list \<Rightarrow> nat \<Rightarrow> nat \<Rightarrow> wav_writer \<Rightarrow> wav_writer option" where
  "write_channels channels pos i w =
     (if i < length channels
      then (case setInt16 (sample16 (f32_get (channels ! i) (int pos))) w of
              None \<Rightarrow> None
            | Some w' \<Rightarrow> write_channels channels pos (i + 1) w')
      else Some w)"
  by pat_completeness auto
termination
  by (relation "measure (\<lambda>(channels, pos, i, w). length channels - i)") auto

declare write_channels.simps [simp del]

text \<open>The outer \<open>while (pos < buffer.length)\<close> loop.\<close>

function write_frames ::
  "js_num list list \<Rightarrow> nat \<Rightarrow> nat \<Rightarrow> wav_writer \<Rightarrow> wav_writer option" where
  "write_frames channels len pos w =
     (if pos < len
      then (case write_channels channels pos 0 w of
              None \<Rightarrow> None
            | Some w' \<Rightarrow> write_frames channels len (pos + 1) w')
      else Some w)"
  by pat_completeness auto
termination
  by (relation "measure (\<lambda>(channels, len, pos, w). len - pos)") auto

declare write_frames.simps [simp del]

subsection \<open>The whole encoder\<close>

text \<open>The result is the byte content of the returned \<open>Blob\<close>. The variable \<open>pos\<close> is
  still 0 while the header is written: the header writers advance \<open>offset\<close>.\<close>

definition audioBufferToWav :: "AudioBuffer \<Rightarrow> nat list option" where
  "audioBufferToWav buffer =
     (let numOfChan = numberOfChannels buffer;
          len = length_frames buffer * numOfChan * 2 + 44;
          w0 = \<lparr>view = replicate len 0, offset = 0\<rparr>;
          pos = 0
      in do {
        w \<leftarrow> setUint32 0x46464952 w0;
        w \<leftarrow> setUint32 (len - 8) w;
        w \<leftarrow> setUint32 0x45564157 w;
        w \<leftarrow> setUint32 0x20746d66 w;
        w \<leftarrow> setUint32 16 w;
        w \<leftarrow> setUint16 1 w;
        w \<leftarrow> setUint16 numOfChan w;
        w \<leftarrow> setUint32 (sampleRate buffer) w;
        w \<leftarrow> setUint32 (sampleRate buffer * 2 * numOfChan) w;
        w \<leftarrow> setUint16 (numOfChan * 2) w;
        w \<leftarrow> setUint16 16 w;
        w \<leftarrow> setUint32 0x61746164 w;
        w \<leftarrow> setUint32 (len - pos - 4) w;
        w \<leftarrow> write_frames (channelData buffer) (length_frames buffer) pos w;
        Some (view w)
      })"

text \<open>Reading a little-endian field back out of the bytes.\<close>

fun le_value :: "nat list \<Rightarrow> nat" where
  "le_value [] = 0"
| "le_value (b # bs) = b + 256 * le_value bs"

definition field :: "nat \<Rightarrow> nat \<Rightarrow> nat list \<Rightarrow> nat" where
  "field byteOffset n bytes = le_value (take n (drop byteOffset bytes))"

subsection \<open>The bytes the encoder produces\<close>

text \<open>A writer that has produced the bytes \<open>written\<close> and has \<open>n\<close> zero bytes left in front of
  it; and the header, the bytes of one sample, of one frame and of all frames, as the writes
  above produce them in order.\<close>

definition writer_at :: "nat list \<Rightarrow> nat \<Rightarrow> wav_writer" where
  "writer_at written n = \<lparr>view = written @ replicate n 0, offset = length written\<rparr>"

definition sample_bytes :: "js_num \<Rightarrow> nat list" where
  "sample_bytes v = le_bytes 2 (nat (sample16 v mod 65536))"

definition frame_bytes :: "js_num list list \<Rightarrow> nat \<Rightarrow> nat list" where
  "frame_bytes channels pos = concat (map (\<lambda>ch. sample_bytes (f32_get ch (int pos))) channels)"

definition data_bytes :: "js_num list list \<Rightarrow> nat \<Rightarrow> nat list" where
  "data_bytes channels len = concat (map (frame_bytes channels) [0..<len])"

definition header_bytes :: "AudioBuffer \<Rightarrow> nat list" where
  "header_bytes buffer =
     (let numOfChan = numberOfChannels buffer;
          len = length_frames buffer * numOfChan * 2 + 44
      in le_bytes 4 (0x46464952 mod 4294967296) @ le_bytes 4 ((len - 8) mod 4294967296)
         @ le_bytes 4 (0x45564157 mod 4294967296) @ le_bytes 4 (0x20746d66 mod 4294967296)
         @ le_bytes 4 (16 mod 4294967296) @ le_bytes 2 (1 mod 65536)
         @ le_bytes 2 (numOfChan mod 65536) @ le_bytes 4 (sampleRate buffer mod 4294967296)
         @ le_bytes 4 (sampleRate buffer * 2 * numOfChan mod 4294967296)
         @ le_bytes 2 (numOfChan * 2 mod 65536) @ le_bytes 2 (16 mod 65536)
         @ le_bytes 4 (0x61746164 mod 4294967296) @ le_bytes 4 ((len - 4) mod 4294967296))"

section \<open>The mixer: \<open>mixAudioTracks\<close>\<close>

text \<open>
  A track of the timeline: the decoded buffer and its placement. Start time and duration
  are numbers, in seconds. The fields \<open>file\<close>, \<open>fileName\<close> and \<open>color\<close> are not read by the
  mixer and are left out.
\<close>

record AudioTrack =
  track_id :: string
  buffer :: AudioBuffer
  duration :: js_num
  startTime :: js_num

definition SAMPLE_RATE :: nat where
  "SAMPLE_RATE = 44100"

text \<open>The innermost loop, over the index \<open>i\<close> of the track's channel data: additive mixing
  into \<open>outputData\<close> at the position \<open>startSample + i\<close>, a double-precision sum.\<close>

function mix_samples :: "js_num \<Rightarrow> js_num list \<Rightarrow> nat \<Rightarrow> js_num list \<Rightarrow> js_num list" where
  "mix_samples startSample trackChannelData i outputData =
     (if i < length trackChannelData
      then mix_samples startSample trackChannelData (i + 1)
             (let k = d_add startSample (Fin (real i))
              in if js_less k (Fin (real (length outputData)))
                 then typed_set outputData k
                        (js_add (typed_get outputData k) (trackChannelData ! i))
                 else outputData)
      else outputData)"
  by pat_completeness auto
termination
  by (relation "measure (\<lambda>(startSample, trackChannelData, i, outputData).
        length trackChannelData - i)") auto

declare mix_samples.simps [simp del]

text \<open>The loop over the output channels. \<open>outputData\<close> is a view into the output buffer, so
  the mixed channel is written back; a mono track is read from channel 0 for both outputs.\<close>

function mix_channels :: "AudioTrack \<Rightarrow> js_num \<Rightarrow> nat \<Rightarrow> AudioBuffer \<Rightarrow> AudioBuffer option" where
  "mix_channels track startSample channel outputBuffer =
     (if channel < numberOfChannels outputBuffer
      then (case getChannelData outputBuffer channel of
              None \<Rightarrow> None
            | Some outputData \<Rightarrow>
               (case getChannelData (buffer track)
                       (if channel < numberOfChannels (buffer track) then channel else 0) of
                  None \<Rightarrow> None
                | Some trackChannelData \<Rightarrow>
                    mix_channels track startSample (channel + 1)
                      (outputBuffer\<lparr>channelData := (channelData outputBuffer)
                         [channel := mix_samples startSample trackChannelData 0 outputData]\<rparr>)))
      else Some outputBuffer)"
  by pat_completeness auto
termination
  by (relation "measure (\<lambda>(track, startSample, channel, outputBuffer).
        numberOfChannels outputBuffer - channel)") (auto simp: numberOfChannels_def)

declare mix_channels.simps [simp del]

text \<open>The loop over the tracks.\<close>

fun mix_tracks :: "AudioTrack list \<Rightarrow> AudioBuffer \<Rightarrow> AudioBuffer option" where
  "mix_tracks [] outputBuffer = Some outputBuffer"
| "mix_tracks (track # tracks) outputBuffer =
     (let startSample = Math_floor (d_mul (startTime track) (Fin (real SAMPLE_RATE)))
      in case mix_channels track startSample 0 outputBuffer of
           None \<Rightarrow> None
         | Some outputBuffer' \<Rightarrow> mix_tracks tracks outputBuffer')"

definition mixAudioTracks :: "AudioTrack list \<Rightarrow> AudioBuffer option" where
  "mixAudioTracks tracks =
     (if length tracks = 0 then createBuffer 2 (Fin (real SAMPLE_RATE)) SAMPLE_RATE
      else
        let totalDuration =
              foldl (\<lambda>mx track. Math_max mx (d_add (startTime track) (duration track)))
                (Fin 0) tracks
        in case createBuffer 2 (Math_ceil (d_mul totalDuration (Fin (real SAMPLE_RATE))))
                  SAMPLE_RATE of
             None \<Rightarrow> None
           | Some outputBuffer \<Rightarrow> mix_tracks tracks outputBuffer)"

subsection \<open>What the mixer computes, sample by sample\<close>

text \<open>
  A buffer as the platform hands it out: at least one channel, every channel as long as the
  buffer, every sample a float32 value.
\<close>

definition valid_buffer :: "AudioBuffer \<Rightarrow> bool" where
  "valid_buffer b =
     (1 \<le> numberOfChannels b \<and>
      list_all (\<lambda>ch. length ch = length_frames b \<and> list_all is_f32 ch) (channelData b))"

text \<open>
  The channel of a track that feeds output channel \<open>c\<close>; the output index of the track's
  first sample, \<open>Math.floor(startTime * SAMPLE_RATE)\<close> with the double product; and the
  samples that the tracks of a list add to output index \<open>j\<close> of channel \<open>c\<close>, in the order of
  the list: a track whose first sample is at the whole number \<open>z\<close> adds its sample \<open>j - z\<close>.
\<close>

definition source_channel :: "AudioTrack \<Rightarrow> nat \<Rightarrow> js_num list" where
  "source_channel track c =
     channelData (buffer track) ! (if c < numberOfChannels (buffer track) then c else 0)"

definition start_sample :: "AudioTrack \<Rightarrow> js_num" where
  "start_sample track = Math_floor (d_mul (startTime track) (Fin (real SAMPLE_RATE)))"

definition contribution :: "nat \<Rightarrow> nat \<Rightarrow> AudioTrack \<Rightarrow> js_num option" where
  "contribution c j track =
     (case start_sample track of
        Fin z \<Rightarrow>
          if \<lfloor>z\<rfloor> \<le> int j \<and> int j < \<lfloor>z\<rfloor> + int (length (source_channel track c))
          then Some (source_channel track c ! nat (int j - \<lfloor>z\<rfloor>)) else None
      | _ \<Rightarrow> None)"

definition contributions :: "AudioTrack list \<Rightarrow> nat \<Rightarrow> nat \<Rightarrow> js_num list" where
  "contributions tracks c j = List.map_filter (contribution c j) tracks"

text \<open>The float32 sum of a list of samples, accumulated from the left as the mixer does.\<close>

definition f32_sum :: "js_num \<Rightarrow> js_num list \<Rightarrow> js_num" where
  "f32_sum z xs = foldl (\<lambda>acc x. to_f32 (js_add acc x)) z xs"

text \<open>The total duration as the mixer's \<open>reduce\<close> computes it, and the length it passes to
  \<open>createBuffer\<close>.\<close>

definition total_duration :: "AudioTrack list \<Rightarrow> js_num" where
  "total_duration tracks =
     foldl (\<lambda>mx track. Math_max mx (d_add (startTime track) (duration track))) (Fin 0) tracks"

definition output_length :: "AudioTrack list \<Rightarrow> js_num" where
  "output_length tracks = Math_ceil (d_mul (total_duration tracks) (Fin (real SAMPLE_RATE)))"

text \<open>The tracks of the examples below: a mono buffer of one sample, and a track that holds
  it at time 0 with the duration of one frame, the double nearest to \<open>1 / 44100\<close>.\<close>

definition one_sample_buffer :: "real \<Rightarrow> AudioBuffer" where
  "one_sample_buffer x = \<lparr>sampleRate = 44100, length_frames = 1, channelData = [[Fin x]]\<rparr>"

definition one_sample_track :: "string \<Rightarrow> real \<Rightarrow> AudioTrack" where
  "one_sample_track name x =
     \<lparr>track_id = name, buffer = one_sample_buffer x,
      duration = Fin (6692696262570359 / 2 ^ 68), startTime = Fin 0\<rparr>"

section \<open>The composition session: \<open>App\<close>\<close>

text \<open>
  The part of the component state that the merged buffer depends on: the \<open>tracks\<close> state,
  the ref \<open>mergedBufferRef\<close> (\<open>null\<close> is \<open>None\<close>), and whether the effect with dependency
  \<open>[tracks]\<close> is still to run for the last committed render. The audio context is created by
  the mount effect before any handler can run and is taken as present; playback state is left
  out.
\<close>

record App_state =
  tracks :: "AudioTrack list"
  mergedBufferRef :: "AudioBuffer option"
  effect_pending :: bool


text \<open>
  \<open>setTracks\<close> with an updater: the new list is committed and the \<open>[tracks]\<close> effect is
  scheduled (every updater below builds a new array, so the dependency changes with each
  call). The effect is a step of its own, run after the commit: its body (lines 39 to 49)
  returns with no tracks before the line that clears the ref.
\<close>

definition setTracks :: "(AudioTrack list \<Rightarrow> AudioTrack list) \<Rightarrow> App_state \<Rightarrow> App_state" where
  "setTracks f s = s\<lparr>tracks := f (tracks s), effect_pending := True\<rparr>"

definition tracks_effect :: "App_state \<Rightarrow> App_state" where
  "tracks_effect s =
     (if length (tracks s) = 0 then s else s\<lparr>mergedBufferRef := None\<rparr>)"

definition run_effects :: "App_state \<Rightarrow> App_state" where
  "run_effects s =
     (if effect_pending s then (tracks_effect s)\<lparr>effect_pending := False\<rparr> else s)"

text \<open>
  The handlers. \<open>buffer.duration\<close> is the double nearest to the length over the sample rate.
  \<open>handleFileUpload\<close> receives the decoded files, each with the identifier drawn for it, and
  reads the default start time from \<open>rendered\<close>, the \<open>tracks\<close> of the render that created the
  handler; a failed decode leaves the state as it is.
\<close>

definition buffer_duration :: "AudioBuffer \<Rightarrow> js_num" where
  "buffer_duration b = dround (real (length_frames b) / real (sampleRate b))"

definition handleFileUpload ::
  "(string \<times> AudioBuffer) list \<Rightarrow> AudioTrack list \<Rightarrow> App_state \<Rightarrow> App_state" where
  "handleFileUpload files rendered s =
     (if length files = 0 then s
      else
        let defaultStartTime =
              (if length rendered > 0
               then d_add (startTime (last rendered)) (duration (last rendered)) else Fin 0);
            newTracks =
              map (\<lambda>(new_id, decoded).
                     \<lparr>track_id = new_id, buffer = decoded, duration = buffer_duration decoded,
                      startTime = defaultStartTime\<rparr>) files
        in setTracks (\<lambda>prev. prev @ newTracks) s)"

definition removeTrack :: "string \<Rightarrow> App_state \<Rightarrow> App_state" where
  "removeTrack rid s = setTracks (filter (\<lambda>t. track_id t \<noteq> rid)) s"

definition updateTrackStartTime :: "string \<Rightarrow> js_num \<Rightarrow> App_state \<Rightarrow> App_state" where
  "updateTrackStartTime uid newTime s =
     setTracks (map (\<lambda>t. if track_id t = uid
                          then t\<lparr>startTime := Math_max (Fin 0) newTime\<rparr> else t)) s"

text \<open>\<open>prepareMergedAudio\<close>: \<open>null\<close> with no tracks, else the memoized buffer, mixed on demand;
  an exception of the mixer propagates and leaves the ref empty.\<close>

datatype prepared = Null | Buffer AudioBuffer | Thrown

definition prepareMergedAudio :: "App_state \<Rightarrow> prepared \<times> App_state" where
  "prepareMergedAudio s =
     (if length (tracks s) = 0 then (Null, s)
      else (case mergedBufferRef s of
              Some merged \<Rightarrow> (Buffer merged, s)
            | None \<Rightarrow>
               (case mixAudioTracks (tracks s) of
                  None \<Rightarrow> (Thrown, s)
                | Some merged \<Rightarrow> (Buffer merged, s\<lparr>mergedBufferRef := Some merged\<rparr>))))"

text \<open>The events of a session, and the state a sequence of events leads to from the
  initial state. \<open>Prepare\<close> stands for a call of \<open>prepareMergedAudio\<close> (play or export),
  \<open>Effects\<close> for the run of the scheduled effect.\<close>

datatype event =
    Upload "(string \<times> AudioBuffer) list" "AudioTrack list"
  | Remove string
  | UpdateStart string js_num
  | Prepare
  | Effects

fun step :: "event \<Rightarrow> App_state \<Rightarrow> App_state" where
  "step (Upload files rendered) s = handleFileUpload files rendered s"
| "step (Remove rid) s = removeTrack rid s"
| "step (UpdateStart uid newTime) s = updateTrackStartTime uid newTime s"
| "step Prepare s = snd (prepareMergedAudio s)"
| "step Effects s = run_effects s"


section \<open>Properties of the encoder\<close>

subsection \<open>Sample conversion\<close>

lemma js_trunc_bounds:
  "of_int lo \<le> y \<Longrightarrow> y \<le> of_int hi \<Longrightarrow> lo \<le> js_trunc y \<and> js_trunc y \<le> hi"
  unfolding js_trunc_def
  by (auto simp: le_floor_iff ceiling_le_iff floor_le_iff le_ceiling_iff)

lemma ToInt32_small:
  assumes "- (2 ^ 31) \<le> js_trunc y" and "js_trunc y < 2 ^ 31"
  shows "ToInt32 (Fin y) = js_trunc y"
proof (cases "0 \<le> js_trunc y")
  case True
  with assms have "js_trunc y mod 2 ^ 32 = js_trunc y" by simp
  with assms show ?thesis by (simp add: Let_def)
next
  case False
  with assms have "(js_trunc y + 2 ^ 32) mod 2 ^ 32 = js_trunc y + 2 ^ 32"
    by (intro mod_pos_pos_trivial) simp_all
  then have "js_trunc y mod 2 ^ 32 = js_trunc y + 2 ^ 32"
    by simp
  with assms False show ?thesis by (simp add: Let_def)
qed

lemma clamp_sample_Fin: "clamp_sample (Fin x) = Fin (max (- 1) (min 1 x))"
  by (simp add: clamp_sample_def)

lemma sample16_below_half:
  assumes "- 1 \<le> c" and "c < - (1 / 2)"
  shows "ToInt32 (Fin (c * 32768)) = js_trunc (c * 32768)"
    and "- 32768 \<le> js_trunc (c * 32768)" and "js_trunc (c * 32768) \<le> 0"
proof -
  have b: "- 32768 \<le> js_trunc (c * 32768) \<and> js_trunc (c * 32768) \<le> 0"
    using assms by (intro js_trunc_bounds) simp_all
  then show "ToInt32 (Fin (c * 32768)) = js_trunc (c * 32768)"
    by (intro ToInt32_small) simp_all
  from b show "- 32768 \<le> js_trunc (c * 32768)" and "js_trunc (c * 32768) \<le> 0"
    by simp_all
qed

lemma sample16_above_half:
  assumes "- (1 / 2) \<le> c" and "c \<le> 1"
  shows "ToInt32 (Fin (c * 32767)) = js_trunc (c * 32767)"
    and "- 16384 \<le> js_trunc (c * 32767)" and "js_trunc (c * 32767) \<le> 32767"
proof -
  have b: "- 16384 \<le> js_trunc (c * 32767) \<and> js_trunc (c * 32767) \<le> 32767"
    using assms by (intro js_trunc_bounds) simp_all
  then show "ToInt32 (Fin (c * 32767)) = js_trunc (c * 32767)"
    by (intro ToInt32_small) simp_all
  from b show "- 16384 \<le> js_trunc (c * 32767)" and "js_trunc (c * 32767) \<le> 32767"
    by simp_all
qed

lemma sample16_of_clamped:
  assumes "clamp_sample v = Fin c"
  shows "sample16 v = ToInt32 (if c < - (1 / 2) then Fin (c * 32768) else Fin (c * 32767))"
proof -
  have "js_less (js_add (Fin (1 / 2)) (Fin c)) (Fin 0) = (c < - (1 / 2))"
    by auto
  then show ?thesis
    by (simp add: sample16_def assms del: ToInt32.simps)
qed

lemma sample16_unfold:
  "c = max (- 1) (min 1 x) \<Longrightarrow>
   sample16 (Fin x) = ToInt32 (if c < - (1 / 2) then Fin (c * 32768) else Fin (c * 32767))"
  by (rule sample16_of_clamped) (simp add: clamp_sample_Fin)

text \<open>
  Claim C2, as amended. For every finite sample value \<open>x\<close> the encoder first clamps \<open>x\<close> to
  \<open>[-1, 1]\<close> and then converts the clamped value \<open>c\<close> to an integer by multiplying by 32768
  when \<open>c\<close> is below \<open>-0.5\<close> and by 32767 otherwise, truncating the product toward zero. The
  guard of line 102 is \<open>0.5 + sample < 0\<close>, not \<open>sample \<le> 0\<close>.
\<close>

theorem sample16_clamp_then_scale:
  "clamp_sample (Fin x) = Fin (max (- 1) (min 1 x)) \<and>
   sample16 (Fin x) =
     (let c = max (- 1) (min 1 x)
      in if c < - (1 / 2) then js_trunc (c * 32768) else js_trunc (c * 32767))"
proof -
  define c where "c = max (- 1) (min 1 (x::real))"
  have c: "- 1 \<le> c" "c \<le> 1" by (simp_all add: c_def)
  have "sample16 (Fin x) = (if c < - (1 / 2) then js_trunc (c * 32768) else js_trunc (c * 32767))"
  proof (cases "c < - (1 / 2)")
    case True
    with sample16_below_half(1) [OF c(1) True] show ?thesis
      by (simp add: sample16_unfold [OF c_def] del: ToInt32.simps)
  next
    case False
    then have "- (1 / 2) \<le> c" by simp
    from sample16_above_half(1) [OF this c(2)] False show ?thesis
      by (simp add: sample16_unfold [OF c_def] del: ToInt32.simps)
  qed
  then show ?thesis
    by (simp add: clamp_sample_Fin c_def [symmetric] Let_def)
qed

text \<open>
  Claim C2 as worded fails: the sample \<open>-0.25\<close> is negative, so the specification scales it
  by 32768 to \<open>-8192\<close>; the encoder scales it by 32767 and truncates \<open>-8191.75\<close> to
  \<open>-8191\<close>.
\<close>

theorem sample16_spec_counterexample:
  "sample16 (Fin (- 1 / 4)) = - 8191 \<and> spec_sample16 (- 1 / 4) = - 8192 \<and>
   sample16 (Fin (- 1 / 4)) \<noteq> spec_sample16 (- 1 / 4)"
  by (simp add: sample16_def clamp_sample_def js_trunc_def spec_sample16_def)

lemma clamp_sample_idem: "clamp_sample (clamp_sample v) = clamp_sample v"
  by (cases v) (simp_all add: clamp_sample_def)

lemma sample16_clamp_sample: "sample16 (clamp_sample v) = sample16 v"
  by (simp add: sample16_def clamp_sample_idem del: ToInt32.simps)

lemma clamp_sample_above: "1 \<le> x \<Longrightarrow> clamp_sample (Fin x) = Fin 1"
  by (simp add: clamp_sample_def)

lemma clamp_sample_below: "x \<le> - 1 \<Longrightarrow> clamp_sample (Fin x) = Fin (- 1)"
  by (simp add: clamp_sample_def)

lemma sample16_above: "1 \<le> x \<Longrightarrow> sample16 (Fin x) = sample16 (Fin 1)"
  using sample16_clamp_sample [of "Fin x"] by (simp add: clamp_sample_above)

lemma sample16_below: "x \<le> - 1 \<Longrightarrow> sample16 (Fin x) = sample16 (Fin (- 1))"
  using sample16_clamp_sample [of "Fin x"] by (simp add: clamp_sample_below)

lemma sample16_ends:
  "sample16 (Fin 1) = 32767" "sample16 (Fin (- 1)) = - 32768"
  "sample16 PosInf = 32767" "sample16 NegInf = - 32768"
  by (simp_all add: sample16_def clamp_sample_def js_trunc_def)

text \<open>
  Claim C7. A sample of \<open>1.5\<close> is encoded as a sample of exactly \<open>1.0\<close> is, to 32767, and a
  sample of \<open>-2.0\<close> as a sample of exactly \<open>-1.0\<close> is, to \<open>-32768\<close>; the two bytes written are
  the same in each pair. Out-of-range samples are clamped before scaling: every sample is
  encoded as its clamped value is, every sample \<open>x \<ge> 1\<close> (and positive infinity) is clamped to
  1 and encoded as 32767, and every sample \<open>y \<le> -1\<close> (and negative infinity) is clamped to
  \<open>-1\<close> and encoded as \<open>-32768\<close>.
\<close>

theorem sample16_clamps_out_of_range:
  "sample16 (Fin (3 / 2)) = 32767 \<and> sample16 (Fin 1) = 32767 \<and>
   sample16 (Fin (- 2)) = - 32768 \<and> sample16 (Fin (- 1)) = - 32768 \<and>
   sample_bytes (Fin (3 / 2)) = sample_bytes (Fin 1) \<and>
   sample_bytes (Fin (- 2)) = sample_bytes (Fin (- 1)) \<and>
   sample16 v = sample16 (clamp_sample v) \<and>
   sample_bytes v = sample_bytes (clamp_sample v) \<and>
   (1 \<le> x \<longrightarrow>
      clamp_sample (Fin x) = Fin 1 \<and> sample16 (Fin x) = 32767 \<and>
      sample16 (Fin x) = sample16 (Fin 1) \<and> sample_bytes (Fin x) = sample_bytes (Fin 1)) \<and>
   (y \<le> - 1 \<longrightarrow>
      clamp_sample (Fin y) = Fin (- 1) \<and> sample16 (Fin y) = - 32768 \<and>
      sample16 (Fin y) = sample16 (Fin (- 1)) \<and>
      sample_bytes (Fin y) = sample_bytes (Fin (- 1))) \<and>
   sample16 PosInf = 32767 \<and> sample16 NegInf = - 32768"
proof -
  have up: "sample16 (Fin u) = 32767" if "1 \<le> u" for u
    using sample16_above [OF that] by (simp only: sample16_ends)
  have down: "sample16 (Fin u) = - 32768" if "u \<le> - 1" for u
    using sample16_below [OF that] by (simp only: sample16_ends)
  have bytes: "sample16 a = sample16 b \<Longrightarrow> sample_bytes a = sample_bytes b" for a b
    by (simp add: sample_bytes_def)
  have 1: "sample16 (Fin (3 / 2)) = 32767" by (rule up) simp
  have 2: "sample16 (Fin (- 2)) = - 32768" by (rule down) simp
  have 3: "sample_bytes (Fin (3 / 2)) = sample_bytes (Fin 1)"
    by (rule bytes) (simp only: 1 sample16_ends)
  have 4: "sample_bytes (Fin (- 2)) = sample_bytes (Fin (- 1))"
    by (rule bytes) (simp only: 2 sample16_ends)
  have 5: "sample16 v = sample16 (clamp_sample v)"
    by (rule sample16_clamp_sample [symmetric])
  have 6: "sample_bytes v = sample_bytes (clamp_sample v)"
    by (rule bytes) (rule 5)
  have 7: "clamp_sample (Fin x) = Fin 1 \<and> sample16 (Fin x) = 32767 \<and>
      sample16 (Fin x) = sample16 (Fin 1) \<and> sample_bytes (Fin x) = sample_bytes (Fin 1)"
    if "1 \<le> x"
    using that clamp_sample_above [OF that] up [OF that] sample16_above [OF that]
      bytes [OF sample16_above [OF that]] by (intro conjI)
  have 8: "clamp_sample (Fin y) = Fin (- 1) \<and> sample16 (Fin y) = - 32768 \<and>
      sample16 (Fin y) = sample16 (Fin (- 1)) \<and>
      sample_bytes (Fin y) = sample_bytes (Fin (- 1))"
    if "y \<le> - 1"
    using that clamp_sample_below [OF that] down [OF that] sample16_below [OF that]
      bytes [OF sample16_below [OF that]] by (intro conjI)
  from 1 2 3 4 5 6 7 8 sample16_ends show ?thesis by blast
qed

text \<open>Claim C7 at the two samples it names, \<open>1.5\<close> and \<open>-2.0\<close>.\<close>

theorem sample16_clamps_out_of_range_witness:
  "1 \<le> (3 / 2 :: real) \<and> clamp_sample (Fin (3 / 2)) = Fin 1 \<and>
   sample16 (Fin (3 / 2)) = sample16 (Fin 1) \<and>
   (- 2 :: real) \<le> - 1 \<and> clamp_sample (Fin (- 2)) = Fin (- 1) \<and>
   sample16 (Fin (- 2)) = sample16 (Fin (- 1))"
  using sample16_clamps_out_of_range [where x = "3 / 2" and y = "- 2"] by simp

text \<open>
  Claim C10. For every sample value (finite, and also an infinity or NaN) the integer that
  clamping, scaling and truncation produce lies in the signed 16-bit range, so \<open>setInt16\<close>
  never receives a value outside \<open>[-32768, 32767]\<close>.
\<close>

theorem sample16_int16_range: "- 32768 \<le> sample16 v \<and> sample16 v \<le> 32767"
proof (cases v)
  case (Fin x)
  define c where "c = max (- 1) (min 1 (x::real))"
  have c: "- 1 \<le> c" "c \<le> 1" by (simp_all add: c_def)
  show ?thesis
  proof (cases "c < - (1 / 2)")
    case True
    with sample16_below_half [OF c(1) True] Fin show ?thesis
      by (simp add: sample16_unfold [OF c_def] del: ToInt32.simps)
  next
    case False
    then have "- (1 / 2) \<le> c" by simp
    from sample16_above_half [OF this c(2)] False Fin show ?thesis
      by (simp add: sample16_unfold [OF c_def] del: ToInt32.simps)
  qed
qed (simp_all add: sample16_def clamp_sample_def js_trunc_def)

subsection \<open>The byte stream\<close>

lemma length_le_bytes [simp]: "length (le_bytes n v) = n"
  by (induction n arbitrary: v) simp_all

lemma view_set_writer:
  "length bs \<le> n \<Longrightarrow>
   view_set (length written) bs (written @ replicate n 0) =
     Some ((written @ bs) @ replicate (n - length bs) 0)"
  by (simp add: view_set_def replicate_add [symmetric])

lemma setUint32_writer:
  "4 \<le> n \<Longrightarrow> setUint32 d (writer_at written n)
     = Some (writer_at (written @ le_bytes 4 (d mod 4294967296)) (n - 4))"
  using view_set_writer [of "le_bytes 4 (d mod 4294967296)" n written]
  by (simp add: setUint32_def writer_at_def)

lemma setUint16_writer:
  "2 \<le> n \<Longrightarrow> setUint16 d (writer_at written n)
     = Some (writer_at (written @ le_bytes 2 (d mod 65536)) (n - 2))"
  using view_set_writer [of "le_bytes 2 (d mod 65536)" n written]
  by (simp add: setUint16_def writer_at_def)

lemma setInt16_writer:
  "2 \<le> n \<Longrightarrow> setInt16 (sample16 v) (writer_at written n)
     = Some (writer_at (written @ sample_bytes v) (n - 2))"
  using view_set_writer [of "sample_bytes v" n written]
  by (simp add: setInt16_def writer_at_def sample_bytes_def)

lemma write_channels_writer:
  "2 * (length channels - i) \<le> n \<Longrightarrow>
   write_channels channels pos i (writer_at written n)
     = Some (writer_at (written @ concat (map (\<lambda>ch. sample_bytes (f32_get ch (int pos))) (drop i channels)))
               (n - 2 * (length channels - i)))"
proof (induction "length channels - i" arbitrary: i written n)
  case 0
  then show ?case by (subst write_channels.simps) simp
next
  case (Suc k)
  then have i: "i < length channels" and k: "k = length channels - (i + 1)" by simp_all
  have n: "2 \<le> n" "2 * (length channels - (i + 1)) \<le> n - 2" using Suc.prems i by simp_all
  have a: "n - 2 - 2 * (length channels - (i + 1)) = n - 2 * (length channels - i)"
    using i by simp
  have d: "drop i channels = channels ! i # drop (i + 1) channels"
    using i by (simp add: Cons_nth_drop_Suc)
  have "write_channels channels pos i (writer_at written n)
      = write_channels channels pos (i + 1) (writer_at (written @ sample_bytes (f32_get (channels ! i) (int pos))) (n - 2))"
    using i n(1) by (subst write_channels.simps) (simp add: setInt16_writer)
  also have "\<dots> = Some (writer_at ((written @ sample_bytes (f32_get (channels ! i) (int pos)))
        @ concat (map (\<lambda>ch. sample_bytes (f32_get ch (int pos))) (drop (i + 1) channels)))
               (n - 2 - 2 * (length channels - (i + 1))))"
    using Suc.hyps(1) [OF k n(2)] .
  finally show ?case using i a by (simp add: d)
qed

lemma write_channels_frame:
  "2 * length channels \<le> n \<Longrightarrow>
   write_channels channels pos 0 (writer_at written n)
     = Some (writer_at (written @ frame_bytes channels pos) (n - 2 * length channels))"
  using write_channels_writer [of channels 0 n pos written] by (simp add: frame_bytes_def)

lemma write_frames_writer:
  "2 * length channels * (len - pos) \<le> n \<Longrightarrow>
   write_frames channels len pos (writer_at written n)
     = Some (writer_at (written @ concat (map (frame_bytes channels) [pos..<len]))
               (n - 2 * length channels * (len - pos)))"
proof (induction "len - pos" arbitrary: pos written n)
  case 0
  then show ?case by (subst write_frames.simps) simp
next
  case (Suc k)
  then have p: "pos < len" and k: "k = len - (pos + 1)" by simp_all
  have e: "len - pos = Suc (len - (pos + 1))" using p by simp
  have a: "n - 2 * length channels - 2 * length channels * (len - (pos + 1))
      = n - 2 * length channels * (len - pos)"
    unfolding e by simp
  have n: "2 * length channels \<le> n"
    "2 * length channels * (len - (pos + 1)) \<le> n - 2 * length channels"
    using Suc.prems unfolding e by simp_all
  have "write_frames channels len pos (writer_at written n)
      = write_frames channels len (pos + 1) (writer_at (written @ frame_bytes channels pos) (n - 2 * length channels))"
    using p n(1) by (subst write_frames.simps) (simp add: write_channels_frame)
  also have "\<dots> = Some (writer_at ((written @ frame_bytes channels pos)
        @ concat (map (frame_bytes channels) [pos + 1..<len]))
               (n - 2 * length channels - 2 * length channels * (len - (pos + 1))))"
    using Suc.hyps(1) [OF k n(2)] .
  finally show ?case using p a by (simp add: upt_conv_Cons)
qed

lemma audioBufferToWav_bytes:
  "audioBufferToWav buf
     = Some (header_bytes buf @ data_bytes (channelData buf) (length_frames buf))"
proof -
  define m where "m = length_frames buf * numberOfChannels buf * 2"
  have w0: "\<lparr>view = replicate (m + 44) 0, offset = 0\<rparr> = writer_at [] (44 + m)"
    by (simp add: writer_at_def add.commute)
  have fin: "write_frames (channelData buf) (length_frames buf) 0 (writer_at h m)
    = Some (writer_at (h @ data_bytes (channelData buf) (length_frames buf)) 0)" for h
    using write_frames_writer [of "channelData buf" "length_frames buf" 0 m h]
    by (simp add: m_def numberOfChannels_def data_bytes_def mult.commute mult.left_commute)
  have vw: "view (writer_at h 0) = h" for h
    by (simp add: writer_at_def)
  show ?thesis
    unfolding audioBufferToWav_def Let_def m_def [symmetric] w0
    by (simp add: setUint32_writer setUint16_writer fin header_bytes_def Let_def m_def [symmetric] vw)
qed

lemma le_value_le_bytes: "le_value (le_bytes n v) = v mod 256 ^ n"
proof (induction n arbitrary: v)
  case 0
  then show ?case by simp
next
  case (Suc n)
  have "v mod 256 + 256 * (v div 256 mod 256 ^ n) = v mod (256 * 256 ^ n)"
    by (simp add: mod_mult2_eq)
  with Suc show ?case by simp
qed

lemma length_header_bytes: "length (header_bytes buf) = 44"
  by (simp add: header_bytes_def Let_def)

lemma length_frame_bytes: "length (frame_bytes channels pos) = 2 * length channels"
  by (induction channels) (simp_all add: frame_bytes_def sample_bytes_def)

lemma length_data_bytes: "length (data_bytes channels len) = 2 * length channels * len"
  by (induction len) (simp_all add: data_bytes_def length_frame_bytes)

lemma data_bytes_0: "data_bytes channels 0 = []"
  by (simp add: data_bytes_def)

lemma le_bytes_2: "le_bytes 2 v = [v mod 256, v div 256 mod 256]"
proof -
  have "le_bytes (Suc (Suc 0)) v = [v mod 256, v div 256 mod 256]" by simp
  then show ?thesis by (simp add: numeral_2_eq_2)
qed

lemma le_bytes_4:
  "le_bytes 4 v = [v mod 256, v div 256 mod 256, v div 256 div 256 mod 256,
                   v div 256 div 256 div 256 mod 256]"
proof -
  have "le_bytes (Suc (Suc (Suc (Suc 0)))) v
     = [v mod 256, v div 256 mod 256, v div 256 div 256 mod 256,
        v div 256 div 256 div 256 mod 256]" by simp
  moreover have "(4::nat) = Suc (Suc (Suc (Suc 0)))" by simp
  ultimately show ?thesis by (simp only:)
qed

text \<open>
  Claim C8. The encoder returns for every buffer (no write is out of range), and its output
  has \<open>numberOfChannels * length * 2 + 44\<close> bytes; for a buffer of zero frames the output is
  exactly the 44 bytes of the header, with no sample data behind it.
\<close>

theorem audioBufferToWav_total:
  "\<exists>bytes. audioBufferToWav buf = Some bytes \<and>
     length bytes = numberOfChannels buf * length_frames buf * 2 + 44 \<and>
     (length_frames buf = 0 \<longrightarrow> bytes = header_bytes buf \<and> length bytes = 44)"
  by (simp add: audioBufferToWav_bytes length_header_bytes length_data_bytes
      numberOfChannels_def data_bytes_0)

text \<open>Claim C8 at a concrete input: a stereo buffer of zero frames.\<close>

theorem audioBufferToWav_total_witness:
  "length_frames \<lparr>sampleRate = 44100, length_frames = 0, channelData = [[], []]\<rparr> = 0 \<and>
   audioBufferToWav \<lparr>sampleRate = 44100, length_frames = 0, channelData = [[], []]\<rparr>
     = Some [82, 73, 70, 70, 36, 0, 0, 0, 87, 65, 86, 69, 102, 109, 116, 32, 16, 0, 0, 0,
             1, 0, 2, 0, 68, 172, 0, 0, 16, 177, 2, 0, 4, 0, 16, 0, 100, 97, 116, 97, 40, 0, 0, 0]"
  using audioBufferToWav_total [of "\<lparr>sampleRate = 44100, length_frames = 0, channelData = [[], []]\<rparr>"]
  by (simp add: header_bytes_def numberOfChannels_def le_bytes_2 le_bytes_4)

text \<open>
  The header fields of the output, for every buffer: the channel count at offset 22, the
  sample rate at offset 24, the bit depth 16 at offset 34, and the size field of the data
  chunk at offset 40. The latter is written as \<open>length - pos - 4\<close> while \<open>pos\<close> is 0, so it holds
  the data size plus 40.
\<close>

lemma wav_header_fields:
  "\<exists>bytes. audioBufferToWav buf = Some bytes \<and>
     field 22 2 bytes = numberOfChannels buf mod 65536 \<and>
     field 24 4 bytes = sampleRate buf mod 4294967296 \<and>
     field 34 2 bytes = 16 \<and>
     field 40 4 bytes
       = (numberOfChannels buf * length_frames buf * 2 + 40) mod 4294967296"
proof -
  let ?d = "data_bytes (channelData buf) (length_frames buf)"
  let ?bytes = "header_bytes buf @ ?d"
  have "field 40 4 ?bytes
      = (length_frames buf * numberOfChannels buf * 2 + 44 - 4) mod 4294967296"
    by (simp add: field_def header_bytes_def Let_def le_value_le_bytes)
  also have "length_frames buf * numberOfChannels buf * 2 + 44 - 4
      = numberOfChannels buf * length_frames buf * 2 + 40"
    using mult.commute [of "length_frames buf" "numberOfChannels buf"] by linarith
  finally have size: "field 40 4 ?bytes
      = (numberOfChannels buf * length_frames buf * 2 + 40) mod 4294967296" .
  have "field 22 2 ?bytes = numberOfChannels buf mod 65536"
    and "field 24 4 ?bytes = sampleRate buf mod 4294967296"
    and "field 34 2 ?bytes = 16"
    by (simp_all add: field_def header_bytes_def Let_def le_value_le_bytes)
  with size show ?thesis
    unfolding audioBufferToWav_bytes by blast
qed

text \<open>
  Claim C1 at a buffer of one channel and one frame. The header reports 1 channel, the rate
  44100 and 16 bits, and two data bytes follow the header; the size field of the data chunk
  at offset 40 holds 42, where \<open>channels * frames * 2\<close> is 2.
\<close>

theorem wav_data_size_field_one_frame:
  "audioBufferToWav \<lparr>sampleRate = 44100, length_frames = 1, channelData = [[Fin (1 / 2)]]\<rparr>
     = Some [82, 73, 70, 70, 38, 0, 0, 0, 87, 65, 86, 69, 102, 109, 116, 32, 16, 0, 0, 0,
             1, 0, 1, 0, 68, 172, 0, 0, 136, 88, 1, 0, 2, 0, 16, 0, 100, 97, 116, 97,
             42, 0, 0, 0, 255, 63] \<and>
   field 40 4 [82, 73, 70, 70, 38, 0, 0, 0, 87, 65, 86, 69, 102, 109, 116, 32, 16, 0, 0, 0,
               1, 0, 1, 0, 68, 172, 0, 0, 136, 88, 1, 0, 2, 0, 16, 0, 100, 97, 116, 97,
               42, 0, 0, 0, 255, 63] = 42"
  by (simp add: audioBufferToWav_bytes header_bytes_def numberOfChannels_def le_bytes_2
      le_bytes_4 data_bytes_def frame_bytes_def sample_bytes_def f32_get_def sample16_def
      clamp_sample_def js_trunc_def field_def)

section \<open>Properties of the mixer\<close>

subsection \<open>Rounding to double precision\<close>

lemma round_half_even_near:
  "of_int (round_half_even y) \<le> y + 1 / 2" "y - 1 / 2 \<le> of_int (round_half_even y)"
proof -
  define f where "f = \<lfloor>y\<rfloor>"
  have f: "of_int f \<le> y" "y < of_int f + 1" unfolding f_def by linarith+
  have r: "round_half_even y =
      (if y - of_int f < 1 / 2 then f else if 1 / 2 < y - of_int f then f + 1
       else if even f then f else f + 1)"
    by (simp add: round_half_even_def Let_def f_def)
  show "of_int (round_half_even y) \<le> y + 1 / 2"
    unfolding r using f by auto
  show "y - 1 / 2 \<le> of_int (round_half_even y)"
    unfolding r using f by auto
qed

lemma round_half_even_of_int [simp]: "round_half_even (of_int m) = m"
  by (simp add: round_half_even_def)

lemma f64_min_pos: "0 < f64_min"
  by (simp add: f64_min_def)

lemma f64_ulp_search_shape:
  "\<exists>k. f64_ulp_search ss q a = q * 2 ^ k \<and> (k = 0 \<or> f64_ulp_search ss q a * 2 ^ 52 \<le> a)"
proof (induction ss arbitrary: q)
  case Nil
  show ?case by (rule exI [of _ 0]) simp
next
  case (Cons s ss)
  show ?case
  proof (cases "q * 2 ^ s * 2 ^ 52 \<le> a")
    case True
    from Cons [of "q * 2 ^ s"] obtain k where
      k: "f64_ulp_search ss (q * 2 ^ s) a = q * 2 ^ s * 2 ^ k"
      "k = 0 \<or> f64_ulp_search ss (q * 2 ^ s) a * 2 ^ 52 \<le> a" by blast
    have "f64_ulp_search (s # ss) q a = q * 2 ^ (s + k)"
      using True k(1) by (simp add: power_add)
    moreover have "f64_ulp_search (s # ss) q a * 2 ^ 52 \<le> a"
      using True k by auto
    ultimately show ?thesis by blast
  next
    case False
    with Cons [of q] show ?thesis by simp
  qed
qed

lemma f64_ulp_shape:
  obtains k where "f64_ulp x = f64_min * 2 ^ k" and "k = 0 \<or> f64_ulp x * 2 ^ 52 \<le> \<bar>x\<bar>"
  using f64_ulp_search_shape
    [of "[1024, 512, 256, 128, 64, 32, 16, 8, 4, 2, 1]" f64_min "\<bar>x\<bar>"]
  unfolding f64_ulp_def [symmetric] by blast

lemma f64_ulp_pos: "0 < f64_ulp x"
  by (rule f64_ulp_shape [of x]) (simp add: f64_min_pos)

lemma f64_ulp_small: "f64_ulp x \<le> max (\<bar>x\<bar> / 2 ^ 52) f64_min"
proof (rule f64_ulp_shape [of x])
  fix k assume k: "f64_ulp x = f64_min * 2 ^ k" "k = 0 \<or> f64_ulp x * 2 ^ 52 \<le> \<bar>x\<bar>"
  show ?thesis
  proof (cases "k = 0")
    case True
    with k(1) show ?thesis by simp
  next
    case False
    with k(2) have "f64_ulp x * 2 ^ 52 \<le> \<bar>x\<bar>" by simp
    then have "f64_ulp x \<le> \<bar>x\<bar> / 2 ^ 52"
      by (simp add: pos_le_divide_eq)
    then show ?thesis by (simp add: le_max_iff_disj)
  qed
qed

lemma dround_dvalue:
  "dround x =
     (if 2 ^ 1024 \<le> dvalue x then PosInf
      else if dvalue x \<le> - (2 ^ 1024) then NegInf else Fin (dvalue x))"
  by (simp add: dround_def dvalue_def Let_def)

lemma dvalue_near: "dvalue x \<le> x + f64_ulp x / 2" "x - f64_ulp x / 2 \<le> dvalue x"
proof -
  let ?q = "f64_ulp x"
  have q: "0 < ?q" by (rule f64_ulp_pos)
  from round_half_even_near [of "x / ?q"]
  have "of_int (round_half_even (x / ?q)) * ?q \<le> (x / ?q + 1 / 2) * ?q"
    and "(x / ?q - 1 / 2) * ?q \<le> of_int (round_half_even (x / ?q)) * ?q"
    using q by (simp_all add: mult_le_cancel_right)
  with q show "dvalue x \<le> x + ?q / 2" and "x - ?q / 2 \<le> dvalue x"
    by (simp_all add: dvalue_def algebra_simps)
qed

lemma dvalue_large:
  assumes "2 ^ 53 \<le> x"
  shows "2 ^ 52 \<le> dvalue x"
proof -
  have "f64_min \<le> 1" by (simp add: f64_min_def)
  with f64_ulp_small [of x] assms have "f64_ulp x \<le> x / 2 ^ 52"
    by (simp add: max_def split: if_splits)
  with dvalue_near(2) [of x] assms show ?thesis by simp
qed

lemma dvalue_negative:
  assumes "x \<le> - 1"
  shows "dvalue x < 0"
proof -
  have "f64_min \<le> 1" by (simp add: f64_min_def)
  with f64_ulp_small [of x] assms have "f64_ulp x \<le> - x"
    by (simp add: max_def split: if_splits)
  with dvalue_near(1) [of x] assms show ?thesis by simp
qed

lemma dvalue_of_int:
  assumes "\<bar>n\<bar> < 2 ^ 53"
  shows "dvalue (of_int n) = of_int n"
proof (rule f64_ulp_shape [of "of_int n"])
  fix k assume k: "f64_ulp (of_int n) = f64_min * 2 ^ k"
    "k = 0 \<or> f64_ulp (of_int n) * 2 ^ 52 \<le> \<bar>of_int n\<bar>"
  have m: "f64_min * 2 ^ 1074 = 1" by (simp add: f64_min_def)
  have "k \<le> 1074"
  proof (rule ccontr)
    assume "\<not> k \<le> 1074"
    then have k1: "1075 \<le> k" and "k \<noteq> 0" by simp_all
    with k(2) have "f64_ulp (of_int n) * 2 ^ 52 \<le> \<bar>of_int n\<bar>" by simp
    moreover have "\<bar>real_of_int n\<bar> < 2 ^ 53"
      using assms by (metis of_int_abs of_int_less_numeral_power_cancel_iff)
    ultimately have "f64_ulp (of_int n) * 2 ^ 52 < 2 ^ 53" by linarith
    then have lt: "f64_ulp (of_int n) < 2" by simp
    have "(2::real) ^ 1075 \<le> 2 ^ k" using k1 by (intro power_increasing) simp_all
    then have "f64_min * 2 ^ 1075 \<le> f64_min * 2 ^ k"
      using f64_min_pos by (simp add: mult_le_cancel_left del: power_numeral)
    moreover have "f64_min * 2 ^ 1075 = 2" by (simp add: f64_min_def)
    ultimately show False using lt k(1) by linarith
  qed
  then obtain d where d: "1074 = k + d" by (metis le_Suc_ex)
  have "f64_ulp (of_int n) * 2 ^ d = 1"
    using m unfolding k(1) d by (simp add: power_add)
  then have inv: "1 / f64_ulp (of_int n) = 2 ^ d"
    using f64_ulp_pos [of "of_int n"] by (simp add: field_simps)
  have "of_int n / f64_ulp (of_int n) = of_int n * (1 / f64_ulp (of_int n))" by simp
  also have "\<dots> = of_int (n * 2 ^ d)" unfolding inv by simp
  finally have "round_half_even (of_int n / f64_ulp (of_int n)) = n * 2 ^ d"
    by (simp only: round_half_even_of_int)
  then have "dvalue (of_int n) = of_int n * (2 ^ d * f64_ulp (of_int n))"
    by (simp add: dvalue_def)
  also have "2 ^ d * f64_ulp (of_int n) = 1"
    using \<open>f64_ulp (of_int n) * 2 ^ d = 1\<close> by (simp add: mult.commute)
  finally show ?thesis by simp
qed

lemma dround_of_int:
  assumes "\<bar>n\<bar> < 2 ^ 53"
  shows "dround (of_int n) = Fin (of_int n)"
proof -
  have "\<bar>real_of_int n\<bar> < 2 ^ 53"
    using assms by (metis of_int_abs of_int_less_numeral_power_cancel_iff)
  then have "real_of_int n < 2 ^ 1024" and "- (2 ^ 1024) < real_of_int n"
    by simp_all
  then show ?thesis
    unfolding dround_dvalue dvalue_of_int [OF assms] by simp
qed

subsection \<open>The sample loop\<close>

lemma d_add_ints:
  "d_add (Fin (of_int z)) (Fin (real i)) = dround (of_int (z + int i))"
  by (simp add: d_add_def)

lemma array_index_of_int:
  "array_index (Fin (of_int w)) n = (if 0 \<le> w \<and> w < int n then Some (nat w) else None)"
  by (auto simp: array_index_def)

lemma array_index_negative: "r < 0 \<Longrightarrow> array_index (Fin r) n = None"
  by (simp add: array_index_def)

lemma mix_step_exact:
  assumes "length out \<le> 2 ^ 32"
  shows "(let k = d_add (Fin (of_int z)) (Fin (real i))
          in if js_less k (Fin (real (length out)))
             then typed_set out k (js_add (typed_get out k) x) else out)
       = (if 0 \<le> z + int i \<and> z + int i < int (length out)
          then out[nat (z + int i) := to_f32 (js_add (out ! nat (z + int i)) x)] else out)"
proof -
  define w where "w = z + int i"
  define k where "k = dround (of_int w)"
  have len: "real (length out) \<le> 2 ^ 32"
    using assms by (metis of_nat_le_iff of_nat_numeral of_nat_power)
  have leni: "int (length out) \<le> 2 ^ 32"
    using assms by (metis of_nat_le_iff of_nat_numeral of_nat_power)
  have goal: "(if js_less k (Fin (real (length out)))
             then typed_set out k (js_add (typed_get out k) x) else out)
       = (if 0 \<le> w \<and> w < int (length out)
          then out[nat w := to_f32 (js_add (out ! nat w) x)] else out)"
  proof -
    consider "\<bar>w\<bar> < 2 ^ 53" | "2 ^ 53 \<le> w" | "w \<le> - (2 ^ 53)" by linarith
    then show ?thesis
    proof cases
      case 1
      then have "k = Fin (of_int w)" unfolding k_def by (rule dround_of_int)
      then show ?thesis
        by (auto simp: typed_set_def typed_get_def array_index_of_int)
    next
      case 2
      then have "(2::real) ^ 53 \<le> of_int w"
        by (metis of_int_le_iff of_int_numeral of_int_power)
      then have big: "2 ^ 52 \<le> dvalue (of_int w)" by (rule dvalue_large)
      then have "\<not> js_less k (Fin (real (length out)))"
        using len unfolding k_def dround_dvalue by auto
      moreover have "\<not> w < int (length out)" using 2 leni by simp
      ultimately show ?thesis by simp
    next
      case 3
      then have "real_of_int w \<le> - 1"
        by (metis (mono_tags) of_int_le_iff of_int_minus of_int_1 order_trans
            neg_le_iff_le one_le_numeral one_le_power)
      then have neg: "dvalue (of_int w) < 0" by (rule dvalue_negative)
      then have "array_index k (length out) = None"
        unfolding k_def dround_dvalue by (auto simp: array_index_def)
      moreover have "\<not> 0 \<le> w" using 3 by simp
      ultimately show ?thesis by (simp add: typed_set_def)
    qed
  qed
  show ?thesis
    unfolding d_add_ints w_def [symmetric] k_def [symmetric] Let_def by (rule goal)
qed

lemma mix_step_not_finite:
  assumes "S = NaN \<or> S = PosInf \<or> S = NegInf"
  shows "(let k = d_add S (Fin (real i))
          in if js_less k (Fin (real (length out)))
             then typed_set out k (js_add (typed_get out k) x) else out) = out"
  using assms by (auto simp: d_add_def typed_set_def array_index_def)

lemma length_typed_set [simp]: "length (typed_set arr k v) = length arr"
  by (simp add: typed_set_def split: option.split)

lemma length_mix_samples [simp]: "length (mix_samples s src i out) = length out"
proof (induction "length src - i" arbitrary: i out)
  case 0
  then show ?case by (subst mix_samples.simps) simp
next
  case (Suc n)
  then have "n = length src - (i + 1)" by simp
  from Suc.hyps(1) [OF this] show ?case
    by (subst mix_samples.simps) (simp add: Let_def)
qed

lemma mix_samples_not_finite:
  assumes "S = NaN \<or> S = PosInf \<or> S = NegInf"
  shows "mix_samples S src i out = out"
proof (induction "length src - i" arbitrary: i)
  case 0
  then show ?case by (subst mix_samples.simps) simp
next
  case (Suc n)
  then have "n = length src - (i + 1)" by simp
  from Suc.hyps(1) [OF this] show ?case
    by (subst mix_samples.simps) (simp only: mix_step_not_finite [OF assms] if_cancel)
qed

lemma nth_mix_samples:
  "length out \<le> 2 ^ 32 \<Longrightarrow> j < length out \<Longrightarrow>
   mix_samples (Fin (of_int z)) src i out ! j =
     (if z + int i \<le> int j \<and> int j < z + int (length src)
      then to_f32 (js_add (out ! j) (src ! nat (int j - z))) else out ! j)"
proof (induction "length src - i" arbitrary: i out)
  case 0
  then have le: "length src \<le> i" by simp
  then have neg: "\<not> (z + int i \<le> int j \<and> int j < z + int (length src))" by linarith
  have "mix_samples (Fin (of_int z)) src i out = out"
    using le by (subst mix_samples.simps) simp
  with neg show ?case by (simp only: if_False)
next
  case (Suc n)
  then have i: "i < length src" and n: "n = length src - (i + 1)" by simp_all
  let ?w = "z + int i"
  let ?out' = "if 0 \<le> ?w \<and> ?w < int (length out)
     then out[nat ?w := to_f32 (js_add (out ! nat ?w) (src ! i))] else out"
  have len: "length ?out' \<le> 2 ^ 32" "j < length ?out'" using Suc.prems by simp_all
  have step: "mix_samples (Fin (of_int z)) src i out = mix_samples (Fin (of_int z)) src (i + 1) ?out'"
    using i by (subst mix_samples.simps) (simp only: mix_step_exact [OF Suc.prems(1)] if_True)
  have at: "?out' ! j = (if ?w = int j then to_f32 (js_add (out ! j) (src ! i)) else out ! j)"
    using Suc.prems by (auto simp: nth_list_update)
  show ?case
  proof (cases "?w = int j")
    case True
    then have "nat (int j - z) = i" by simp
    with True i at show ?thesis
      unfolding step Suc.hyps(1) [OF n len] by simp
  next
    case False
    with at have "?out' ! j = out ! j" by simp
    moreover have "(z + int (i + 1) \<le> int j) = (?w \<le> int j)" using False by auto
    ultimately show ?thesis
      unfolding step Suc.hyps(1) [OF n len] by simp
  qed
qed

lemma getChannelData_source:
  "1 \<le> numberOfChannels (buffer t) \<Longrightarrow>
   getChannelData (buffer t) (if c < numberOfChannels (buffer t) then c else 0)
     = Some (source_channel t c)"
  by (simp add: getChannelData_def source_channel_def)

lemma mix_channels_eq:
  assumes "1 \<le> numberOfChannels (buffer t)"
  shows "mix_channels t s c out =
     Some (out\<lparr>channelData :=
       map (\<lambda>c'. if c \<le> c' then mix_samples s (source_channel t c') 0 (channelData out ! c')
                  else channelData out ! c') [0..<numberOfChannels out]\<rparr>)"
proof (induction "numberOfChannels out - c" arbitrary: c out)
  case 0
  then have le: "numberOfChannels out \<le> c" by simp
  then have "mix_channels t s c out = Some out"
    by (subst mix_channels.simps) simp
  moreover have "map (\<lambda>c'. if c \<le> c'
        then mix_samples s (source_channel t c') 0 (channelData out ! c')
        else channelData out ! c') [0..<numberOfChannels out]
      = map (\<lambda>c'. channelData out ! c') [0..<numberOfChannels out]"
    using le by (intro map_cong refl) simp
  ultimately show ?case by (simp add: numberOfChannels_def map_nth)
next
  case (Suc n)
  let ?mixed = "mix_samples s (source_channel t c) 0 (channelData out ! c)"
  let ?out' = "out\<lparr>channelData := (channelData out)[c := ?mixed]\<rparr>"
  from Suc have c: "c < numberOfChannels out" by simp
  have n': "numberOfChannels ?out' = numberOfChannels out"
    by (simp add: numberOfChannels_def)
  have n: "n = numberOfChannels ?out' - (c + 1)" using Suc.hyps(2) n' by simp
  have g: "getChannelData out c = Some (channelData out ! c)"
    using c by (simp add: getChannelData_def)
  have step: "mix_channels t s c out = mix_channels t s (c + 1) ?out'"
    by (subst mix_channels.simps)
      (simp only: c if_True g getChannelData_source [OF assms] option.simps)
  have "map (\<lambda>c'. if c + 1 \<le> c' then mix_samples s (source_channel t c') 0 (channelData ?out' ! c')
                  else channelData ?out' ! c') [0..<numberOfChannels out]
      = map (\<lambda>c'. if c \<le> c' then mix_samples s (source_channel t c') 0 (channelData out ! c')
                  else channelData out ! c') [0..<numberOfChannels out]"
  proof (rule map_cong [OF refl])
    fix x assume "x \<in> set [0..<numberOfChannels out]"
    then have x: "x < length (channelData out)" by (simp add: numberOfChannels_def)
    consider "x < c" | "x = c" | "c < x" by linarith
    then show "(if c + 1 \<le> x then mix_samples s (source_channel t x) 0 (channelData ?out' ! x)
                  else channelData ?out' ! x)
        = (if c \<le> x then mix_samples s (source_channel t x) 0 (channelData out ! x)
                  else channelData out ! x)"
      using x by cases simp_all
  qed
  then show ?case
    unfolding step Suc.hyps(1) [OF n] n' by simp
qed

lemma start_sample_cases:
  obtains z where "start_sample t = Fin (of_int z)"
  | "start_sample t = NaN \<or> start_sample t = PosInf \<or> start_sample t = NegInf"
  unfolding start_sample_def
  by (cases "d_mul (startTime t) (Fin (real SAMPLE_RATE))") auto

lemma nth_mix_samples_contribution:
  assumes "length out \<le> 2 ^ 32" and "j < length out"
  shows "mix_samples (start_sample t) (source_channel t c) 0 out ! j =
     (case contribution c j t of None \<Rightarrow> out ! j | Some x \<Rightarrow> to_f32 (js_add (out ! j) x))"
proof (rule start_sample_cases [of t])
  fix z assume z: "start_sample t = Fin (of_int z)"
  show ?thesis
    unfolding z nth_mix_samples [OF assms] contribution_def by simp
next
  assume n: "start_sample t = NaN \<or> start_sample t = PosInf \<or> start_sample t = NegInf"
  then have "contribution c j t = None"
    by (auto simp: contribution_def)
  then show ?thesis by (simp add: mix_samples_not_finite [OF n])
qed

lemma f32_sum_Nil [simp]: "f32_sum z [] = z"
  by (simp add: f32_sum_def)

lemma f32_sum_Cons [simp]: "f32_sum z (x # xs) = f32_sum (to_f32 (js_add z x)) xs"
  by (simp add: f32_sum_def)

lemma contributions_Nil [simp]: "contributions [] c j = []"
  by (simp add: contributions_def)

lemma contributions_Cons:
  "contributions (t # ts) c j =
     (case contribution c j t of None \<Rightarrow> contributions ts c j
      | Some x \<Rightarrow> x # contributions ts c j)"
  by (simp add: contributions_def split: option.split)

lemma f32_sum_contributions_Cons:
  "f32_sum (case contribution c j t of None \<Rightarrow> z | Some x \<Rightarrow> to_f32 (js_add z x))
     (contributions ts c j) = f32_sum z (contributions (t # ts) c j)"
  by (simp add: contributions_Cons split: option.split)

lemma mix_tracks_eq:
  assumes "\<forall>t\<in>set ts. 1 \<le> numberOfChannels (buffer t)"
    and "\<forall>ch\<in>set (channelData out). length ch \<le> 2 ^ 32"
  shows "mix_tracks ts out =
     Some (out\<lparr>channelData :=
       map (\<lambda>c. map (\<lambda>j. f32_sum (channelData out ! c ! j) (contributions ts c j))
                  [0..<length (channelData out ! c)]) [0..<numberOfChannels out]\<rparr>)"
  using assms
proof (induction ts arbitrary: out)
  case Nil
  have "map (\<lambda>c. map (\<lambda>j. channelData out ! c ! j) [0..<length (channelData out ! c)])
          [0..<length (channelData out)] = channelData out"
    by (simp add: map_nth)
  then show ?case by (simp add: numberOfChannels_def)
next
  case (Cons t ts)
  let ?s = "start_sample t"
  let ?out1 = "out\<lparr>channelData :=
       map (\<lambda>c. mix_samples ?s (source_channel t c) 0 (channelData out ! c))
         [0..<numberOfChannels out]\<rparr>"
  have t: "1 \<le> numberOfChannels (buffer t)" and ts: "\<forall>t\<in>set ts. 1 \<le> numberOfChannels (buffer t)"
    using Cons.prems by simp_all
  have n1: "numberOfChannels ?out1 = numberOfChannels out"
    by (simp add: numberOfChannels_def)
  have len: "length (channelData out ! c) \<le> 2 ^ 32" if "c < numberOfChannels out" for c
    using Cons.prems(2) that by (simp add: numberOfChannels_def)
  have len1: "\<forall>ch\<in>set (channelData ?out1). length ch \<le> 2 ^ 32"
    using len by auto
  have step: "mix_tracks (t # ts) out = mix_tracks ts ?out1"
    by (simp add: mix_channels_eq [OF t] start_sample_def)
  have "map (\<lambda>c. map (\<lambda>j. f32_sum (channelData ?out1 ! c ! j) (contributions ts c j))
                  [0..<length (channelData ?out1 ! c)]) [0..<numberOfChannels out]
      = map (\<lambda>c. map (\<lambda>j. f32_sum (channelData out ! c ! j) (contributions (t # ts) c j))
                  [0..<length (channelData out ! c)]) [0..<numberOfChannels out]"
  proof (rule map_cong [OF refl])
    fix c assume "c \<in> set [0..<numberOfChannels out]"
    then have c: "c < numberOfChannels out" by simp
    then have ch: "channelData ?out1 ! c
        = mix_samples ?s (source_channel t c) 0 (channelData out ! c)" by simp
    have "map (\<lambda>j. f32_sum (mix_samples ?s (source_channel t c) 0 (channelData out ! c) ! j)
                 (contributions ts c j)) [0..<length (channelData out ! c)]
        = map (\<lambda>j. f32_sum (channelData out ! c ! j) (contributions (t # ts) c j))
            [0..<length (channelData out ! c)]"
      by (rule map_cong [OF refl])
        (simp add: nth_mix_samples_contribution [OF len [OF c]] f32_sum_contributions_Cons)
    then show "map (\<lambda>j. f32_sum (channelData ?out1 ! c ! j) (contributions ts c j))
            [0..<length (channelData ?out1 ! c)]
        = map (\<lambda>j. f32_sum (channelData out ! c ! j) (contributions (t # ts) c j))
            [0..<length (channelData out ! c)]"
      unfolding ch length_mix_samples .
  qed
  then show ?case
    unfolding step Cons.IH [OF ts len1] n1 by simp
qed

lemma to_unsigned_long_less: "to_unsigned_long v < 2 ^ 32"
proof (cases v)
  case (Fin x)
  have "js_trunc x mod 2 ^ 32 < 2 ^ 32" by simp
  then have "nat (js_trunc x mod 2 ^ 32) < nat (2 ^ 32)"
    by (intro nat_mono_iff [THEN iffD2]) simp_all
  with Fin show ?thesis by simp
qed simp_all

lemma mixAudioTracks_eq:
  assumes "ts \<noteq> []" and "\<forall>t\<in>set ts. 1 \<le> numberOfChannels (buffer t)"
  shows "mixAudioTracks ts =
     (if to_unsigned_long (output_length ts) = 0 then None
      else Some \<lparr>sampleRate = SAMPLE_RATE,
           length_frames = to_unsigned_long (output_length ts),
           channelData =
             map (\<lambda>c. map (\<lambda>j. f32_sum (Fin 0) (contributions ts c j))
                        [0..<to_unsigned_long (output_length ts)]) [0..<2]\<rparr>)"
proof (cases "to_unsigned_long (output_length ts) = 0")
  case True
  with assms(1) show ?thesis
    by (simp add: mixAudioTracks_def createBuffer_def output_length_def total_duration_def
        Let_def)
next
  case False
  let ?n = "to_unsigned_long (output_length ts)"
  let ?b = "\<lparr>sampleRate = SAMPLE_RATE, length_frames = ?n,
             channelData = replicate 2 (replicate ?n (Fin 0))\<rparr>"
  have two: "[0..<2] = [0, Suc 0]" by (simp add: upt_rec)
  have n: "?n \<le> 2 ^ 32" using to_unsigned_long_less [of "output_length ts"] by simp
  have "mixAudioTracks ts = mix_tracks ts ?b"
    using assms(1) False
    by (simp add: mixAudioTracks_def createBuffer_def output_length_def total_duration_def
        Let_def)
  also have "\<dots> = Some (?b\<lparr>channelData :=
       map (\<lambda>c. map (\<lambda>j. f32_sum (channelData ?b ! c ! j) (contributions ts c j))
                  [0..<length (channelData ?b ! c)])
           [0..<numberOfChannels ?b]\<rparr>)"
    using n by (intro mix_tracks_eq [OF assms(2)]) simp
  also have "\<dots> = Some \<lparr>sampleRate = SAMPLE_RATE, length_frames = ?n,
           channelData = map (\<lambda>c. map (\<lambda>j. f32_sum (Fin 0) (contributions ts c j)) [0..<?n])
                           [0..<2]\<rparr>"
    by (simp add: numberOfChannels_def two numeral_2_eq_2 cong: map_cong)
  finally show ?thesis using False by simp
qed

subsection \<open>Total duration and contributions\<close>

lemma Math_max_commute: "Math_max a b = Math_max b a"
  by (cases a; cases b) (simp_all add: max.commute)

lemma Math_max_assoc: "Math_max (Math_max a b) c = Math_max a (Math_max b c)"
  by (cases a; cases b; cases c) (simp_all add: max.assoc)

lemma Math_max_left_commute: "Math_max (Math_max m a) b = Math_max (Math_max m b) a"
  by (simp add: Math_max_assoc Math_max_commute [of a b])

lemma total_duration_mset:
  assumes "mset ts' = mset ts"
  shows "total_duration ts' = total_duration ts"
proof -
  let ?f = "\<lambda>t mx. Math_max mx (d_add (startTime t) (duration t))"
  have "fold ?f ts' = fold ?f ts"
    using assms by (intro fold_multiset_equiv) (auto simp: fun_eq_iff Math_max_left_commute)
  then show ?thesis
    by (simp add: total_duration_def foldl_conv_fold)
qed

lemma foldl_Math_max_NaN:
  "foldl (\<lambda>mx t. Math_max mx (g t)) NaN ts = NaN"
  by (induction ts) simp_all

lemma foldl_Math_max_upper:
  "foldl (\<lambda>mx t. Math_max mx (g t)) z ts = Fin m \<Longrightarrow>
   \<not> js_less (Fin m) z \<and> (\<forall>t\<in>set ts. \<not> js_less (Fin m) (g t))"
proof (induction ts arbitrary: z)
  case Nil
  then show ?case by simp
next
  case (Cons t ts)
  then have f: "foldl (\<lambda>mx t. Math_max mx (g t)) (Math_max z (g t)) ts = Fin m" by simp
  from Cons.IH [OF f] have up: "\<not> js_less (Fin m) (Math_max z (g t))"
    and rest: "\<forall>t\<in>set ts. \<not> js_less (Fin m) (g t)" by simp_all
  have "Math_max z (g t) \<noteq> NaN"
    using f foldl_Math_max_NaN [of g ts] by auto
  with up have "\<not> js_less (Fin m) z \<and> \<not> js_less (Fin m) (g t)"
    by (cases z; cases "g t") (auto simp: max_def split: if_splits)
  with rest show ?case by simp
qed

lemma foldl_Math_max_attained:
  "foldl (\<lambda>mx t. Math_max mx (g t)) z ts = z \<or>
   (\<exists>t\<in>set ts. foldl (\<lambda>mx t. Math_max mx (g t)) z ts = g t)"
proof (induction ts arbitrary: z)
  case Nil
  then show ?case by simp
next
  case (Cons t ts)
  have "Math_max z (g t) = z \<or> Math_max z (g t) = g t"
    by (cases z; cases "g t") (auto simp: max_def)
  with Cons [of "Math_max z (g t)"] show ?case by auto
qed

lemma total_duration_is_max:
  assumes "total_duration ts = Fin m"
  shows "\<forall>t\<in>set ts. \<not> js_less (total_duration ts) (d_add (startTime t) (duration t))"
    and "total_duration ts = Fin 0 \<or>
         (\<exists>t\<in>set ts. total_duration ts = d_add (startTime t) (duration t))"
proof -
  show "\<forall>t\<in>set ts. \<not> js_less (total_duration ts) (d_add (startTime t) (duration t))"
    using foldl_Math_max_upper [of "\<lambda>t. d_add (startTime t) (duration t)" "Fin 0" ts m] assms
    by (simp add: total_duration_def)
  show "total_duration ts = Fin 0 \<or>
         (\<exists>t\<in>set ts. total_duration ts = d_add (startTime t) (duration t))"
    using foldl_Math_max_attained [of "\<lambda>t. d_add (startTime t) (duration t)" "Fin 0" ts]
    by (simp add: total_duration_def)
qed

lemma to_unsigned_long_nat: "n < 2 ^ 32 \<Longrightarrow> to_unsigned_long (Fin (real n)) = n"
proof -
  assume n: "n < 2 ^ 32"
  have "js_trunc (real n) = int n" by (simp add: js_trunc_def)
  moreover have "int n mod 2 ^ 32 = int n"
    using n by (intro mod_pos_pos_trivial) simp_all
  ultimately show ?thesis by simp
qed

lemma output_length_finite:
  assumes "output_length ts = Fin l"
  obtains m where "total_duration ts = Fin m"
  using assms unfolding output_length_def
  by (cases "total_duration ts") (simp_all add: d_mul_def SAMPLE_RATE_def)

lemma dvalue_nonpos:
  assumes "x \<le> 0"
  shows "dvalue x \<le> 0"
proof -
  have q: "0 < f64_ulp x" by (rule f64_ulp_pos)
  then have "x / f64_ulp x \<le> 0" using assms by (simp add: divide_le_0_iff)
  with round_half_even_near(1) [of "x / f64_ulp x"]
  have "real_of_int (round_half_even (x / f64_ulp x)) < 1" by linarith
  then have "round_half_even (x / f64_ulp x) \<le> 0" by linarith
  then have "real_of_int (round_half_even (x / f64_ulp x)) \<le> 0" by simp
  with q show ?thesis
    unfolding dvalue_def by (simp add: mult_le_0_iff)
qed

lemma js_add_zero [simp]: "js_add (Fin 0) x = x"
  by (cases x) simp_all

lemma js_add_commute: "js_add a b = js_add b a"
  by (cases a; cases b) simp_all

lemma source_channel_valid:
  assumes "valid_buffer (buffer t)"
  shows "length (source_channel t c) = length_frames (buffer t)"
    and "list_all is_f32 (source_channel t c)"
proof -
  let ?i = "if c < numberOfChannels (buffer t) then c else 0"
  have "?i < length (channelData (buffer t))"
    using assms by (auto simp: valid_buffer_def numberOfChannels_def)
  then have "source_channel t c \<in> set (channelData (buffer t))"
    unfolding source_channel_def by (rule nth_mem)
  with assms show "length (source_channel t c) = length_frames (buffer t)"
    and "list_all is_f32 (source_channel t c)"
    by (auto simp: valid_buffer_def list_all_iff)
qed

lemma source_channel_first_two:
  "1 \<le> numberOfChannels (buffer t) \<Longrightarrow> c < 2 \<Longrightarrow>
   source_channel t c
     = channelData (buffer t) ! (if numberOfChannels (buffer t) = 1 then 0 else c)"
  by (auto simp: source_channel_def)

lemma contribution_is_f32:
  assumes "valid_buffer (buffer t)" and "contribution c j t = Some x"
  shows "is_f32 x"
proof -
  from assms(2) have "\<exists>k<length (source_channel t c). x = source_channel t c ! k"
  proof (cases "start_sample t")
    case (Fin z)
    let ?k = "nat (int j - \<lfloor>z\<rfloor>)"
    from assms(2) Fin have "?k < length (source_channel t c)" and "x = source_channel t c ! ?k"
      by (auto simp: contribution_def split: if_splits)
    then show ?thesis by blast
  qed (simp_all add: contribution_def)
  with source_channel_valid(2) [OF assms(1), of c] show ?thesis
    by (auto simp: list_all_length)
qed

lemma mset_map_filter:
  "mset (List.map_filter f xs) = image_mset (the \<circ> f) (filter_mset (\<lambda>x. f x \<noteq> None) (mset xs))"
  by (simp add: List.map_filter_def)

lemma mset_contributions:
  "mset ts' = mset ts \<Longrightarrow> mset (contributions ts' c j) = mset (contributions ts c j)"
  by (simp add: contributions_def mset_map_filter)

lemma contributions_is_f32:
  assumes "\<forall>t\<in>set ts. valid_buffer (buffer t)"
  shows "list_all is_f32 (contributions ts c j)"
  using assms
proof (induction ts)
  case Nil
  then show ?case by simp
next
  case (Cons t ts)
  then show ?case
    by (auto simp: contributions_Cons contribution_is_f32 split: option.split)
qed

lemma f32_sum_two_perm:
  assumes "mset ys = mset xs" and "length xs \<le> 2" and "list_all is_f32 xs"
  shows "f32_sum (Fin 0) ys = f32_sum (Fin 0) xs"
proof -
  have len: "length ys = length xs"
    using assms(1) by (rule mset_eq_length)
  consider "xs = []" | a where "xs = [a]" | a b where "xs = [a, b]"
    using assms(2) by (cases xs rule: list.exhaust; cases "tl xs"; cases "tl (tl xs)") auto
  then show ?thesis
  proof cases
    case 1
    with assms(1) show ?thesis by simp
  next
    case 2
    with assms(1) show ?thesis by simp
  next
    case 3
    with len obtain c d where ys: "ys = [c, d]"
      by (cases ys; cases "tl ys"; cases "tl (tl ys)") auto
    with assms(1) 3 have "(c = a \<and> d = b) \<or> (c = b \<and> d = a)"
      by (auto simp: add_eq_conv_ex)
    moreover have ab: "is_f32 a" "is_f32 b" using assms(3) 3 by simp_all
    moreover have pair: "f32_sum (Fin 0) [u, v] = to_f32 (js_add u v)" if "is_f32 u" for u v
      using that by (simp add: is_f32_def)
    ultimately show ?thesis
      unfolding 3 ys using js_add_commute [of a b] by (auto simp only: pair)
  qed
qed

subsection \<open>The empty list and the order of the tracks\<close>

text \<open>
  Claim C4. Mixing the empty track list does not fail: it returns a buffer of two channels
  at the fixed rate, each of 44100 samples (one second), every sample zero.
\<close>

theorem mixAudioTracks_empty:
  "mixAudioTracks [] =
     Some \<lparr>sampleRate = 44100, length_frames = 44100,
           channelData = [replicate 44100 (Fin 0), replicate 44100 (Fin 0)]\<rparr>"
  by (simp add: mixAudioTracks_def createBuffer_def SAMPLE_RATE_def numeral_2_eq_2 js_trunc_def)

lemma start_sample_zero: "startTime t = Fin 0 \<Longrightarrow> start_sample t = Fin 0"
  by (simp add: start_sample_def d_mul_def dround_def f64_ulp_def f64_min_def
      round_half_even_def)

lemma contribution_at_zero:
  "startTime t = Fin 0 \<Longrightarrow>
   contribution c j t =
     (if j < length (source_channel t c) then Some (source_channel t c ! j) else None)"
  by (simp add: contribution_def start_sample_zero)

lemma one_sample_total:
  assumes "ts \<noteq> []" and "\<forall>t\<in>set ts. \<exists>name x. t = one_sample_track name x"
  shows "total_duration ts = Fin (6692696262570359 / 2 ^ 68)"
proof -
  let ?d = "Fin (6692696262570359 / 2 ^ 68)"
  let ?f = "\<lambda>mx t. Math_max mx (d_add (startTime t) (duration t))"
  have sum: "d_add (startTime t) (duration t) = ?d" if "t \<in> set ts" for t
    using assms(2) that
    by (auto simp: one_sample_track_def d_add_def dround_def f64_ulp_def f64_min_def
        round_half_even_def)
  have step: "foldl ?f z us = ?d"
    if "us \<noteq> []" and "set us \<subseteq> set ts" and "z = Fin 0 \<or> z = ?d" for us z
    using that
  proof (induction us arbitrary: z)
    case Nil
    then show ?case by simp
  next
    case (Cons u us)
    then have u: "Math_max z (d_add (startTime u) (duration u)) = ?d"
      using sum [of u] by auto
    show ?case
    proof (cases "us = []")
      case True
      with u show ?thesis by simp
    next
      case False
      with Cons.IH [of ?d] Cons.prems(2) u show ?thesis by simp
    qed
  qed
  from step [OF assms(1)] show ?thesis
    by (simp add: total_duration_def)
qed

lemma one_sample_tracks:
  assumes "ts \<noteq> []" and "\<forall>t\<in>set ts. \<exists>name x. t = one_sample_track name x"
  shows "mixAudioTracks ts =
     Some \<lparr>sampleRate = 44100, length_frames = 1,
           channelData = [[f32_sum (Fin 0) (contributions ts 0 0)],
                          [f32_sum (Fin 0) (contributions ts 1 0)]]\<rparr>"
proof -
  have "output_length ts = Fin 1"
    unfolding output_length_def one_sample_total [OF assms]
    by (simp add: SAMPLE_RATE_def d_mul_def dround_def f64_ulp_def f64_min_def
        round_half_even_def)
  then have n: "to_unsigned_long (output_length ts) = 1"
    by (simp add: js_trunc_def)
  have ch: "\<forall>t\<in>set ts. 1 \<le> numberOfChannels (buffer t)"
    using assms(2) by (auto simp: one_sample_track_def one_sample_buffer_def numberOfChannels_def)
  have two: "[0..<2] = [0, Suc 0]" and one: "[0..<1] = [0]"
    by (simp_all add: upt_rec)
  from mixAudioTracks_eq [OF assms(1) ch] show ?thesis
    unfolding n two one by (simp add: SAMPLE_RATE_def)
qed

lemma one_sample_contributions:
  "contributions (one_sample_track name x # ts) c 0 = Fin x # contributions ts c 0"
  by (simp add: contributions_Cons contribution_at_zero source_channel_def
      one_sample_track_def one_sample_buffer_def numberOfChannels_def)

text \<open>
  Claim C3 as worded fails. Three one-sample tracks at time 0 hold \<open>1\<close>, \<open>2 ^ -24\<close> and
  \<open>2 ^ -24\<close>. Mixed in this order the float32 sum is \<open>1\<close> (each small addend is rounded
  away); mixed with the two small samples first it is \<open>1 + 2 ^ -23\<close>.
\<close>

theorem mixAudioTracks_order_counterexample:
  "mset [one_sample_track ''b'' (1 / 2 ^ 24), one_sample_track ''c'' (1 / 2 ^ 24),
         one_sample_track ''a'' 1]
     = mset [one_sample_track ''a'' 1, one_sample_track ''b'' (1 / 2 ^ 24),
             one_sample_track ''c'' (1 / 2 ^ 24)] \<and>
   mixAudioTracks [one_sample_track ''a'' 1, one_sample_track ''b'' (1 / 2 ^ 24),
                   one_sample_track ''c'' (1 / 2 ^ 24)]
     = Some \<lparr>sampleRate = 44100, length_frames = 1, channelData = [[Fin 1], [Fin 1]]\<rparr> \<and>
   mixAudioTracks [one_sample_track ''b'' (1 / 2 ^ 24), one_sample_track ''c'' (1 / 2 ^ 24),
                   one_sample_track ''a'' 1]
     = Some \<lparr>sampleRate = 44100, length_frames = 1,
             channelData = [[Fin (1 + 1 / 2 ^ 23)], [Fin (1 + 1 / 2 ^ 23)]]\<rparr>"
proof -
  have m: "mixAudioTracks [one_sample_track n1 x1, one_sample_track n2 x2, one_sample_track n3 x3]
      = Some \<lparr>sampleRate = 44100, length_frames = 1,
           channelData = [[f32_sum (Fin 0) [Fin x1, Fin x2, Fin x3]],
                          [f32_sum (Fin 0) [Fin x1, Fin x2, Fin x3]]]\<rparr>" for n1 n2 n3 x1 x2 x3
    using one_sample_tracks [of "[one_sample_track n1 x1, one_sample_track n2 x2, one_sample_track n3 x3]"]
    unfolding one_sample_contributions by auto
  show ?thesis
    unfolding m by (simp add: fround_def f32_ulp_def round_half_even_def)
qed

subsection \<open>Single tracks and placement\<close>

text \<open>
  Positions and lengths follow the double products, not the exact ones: the doubles nearest
  to \<open>3 / 44100\<close>, \<open>15 / 44100\<close> and \<open>0.00007\<close> as start times give the start samples 3, 14
  and 3, and the doubles nearest to \<open>1 / 44100\<close> and \<open>13 / 44100\<close> as durations give the output
  lengths 1 and 14.
\<close>

lemma start_sample_double_product:
  "start_sample \<lparr>track_id = name, buffer = b, duration = d,
      startTime = Fin (5019522196927769 / 2 ^ 66)\<rparr> = Fin 3"
  "start_sample \<lparr>track_id = name, buffer = b, duration = d,
      startTime = Fin (6274402746159711 / 2 ^ 64)\<rparr> = Fin 14"
  "start_sample \<lparr>track_id = name, buffer = b, duration = d,
      startTime = Fin (2582544170319337 / 2 ^ 65)\<rparr> = Fin 3"
  by (simp_all add: start_sample_def SAMPLE_RATE_def d_mul_def dround_def f64_ulp_def
      f64_min_def round_half_even_def)

lemma output_length_double_product:
  "output_length [\<lparr>track_id = name, buffer = b,
      duration = Fin (6692696262570359 / 2 ^ 68), startTime = Fin 0\<rparr>] = Fin 1"
  "output_length [\<lparr>track_id = name, buffer = b,
      duration = Fin (5437815713338417 / 2 ^ 64), startTime = Fin 0\<rparr>] = Fin 14"
  by (simp_all add: output_length_def total_duration_def SAMPLE_RATE_def d_add_def d_mul_def
      dround_def f64_ulp_def f64_min_def round_half_even_def)

lemma mix_two_channels:
  assumes "ts \<noteq> []" and "\<forall>t\<in>set ts. 1 \<le> numberOfChannels (buffer t)"
    and "output_length ts = Fin (real n)" and "1 \<le> n" and "n < 2 ^ 32"
  shows "mixAudioTracks ts =
     Some \<lparr>sampleRate = SAMPLE_RATE, length_frames = n,
           channelData = [map (\<lambda>j. f32_sum (Fin 0) (contributions ts 0 j)) [0..<n],
                          map (\<lambda>j. f32_sum (Fin 0) (contributions ts 1 j)) [0..<n]]\<rparr>"
proof -
  have n: "to_unsigned_long (output_length ts) = n"
    unfolding assms(3) using assms(5) by (rule to_unsigned_long_nat)
  have two: "[0..<2] = [0, Suc 0]" by (simp add: upt_rec)
  from mixAudioTracks_eq [OF assms(1,2)] assms(4) show ?thesis
    unfolding n two by simp
qed

lemma single_output_length:
  assumes "is_f64 d" and "Math_ceil (d_mul d (Fin (real SAMPLE_RATE))) = Fin (real n)"
    and "1 \<le> n"
  shows "Math_ceil (d_mul (Math_max (Fin 0) (d_add (Fin 0) d)) (Fin (real SAMPLE_RATE)))
     = Fin (real n)"
proof -
  have z: "d_add (Fin 0) d = d"
    using assms(1) by (simp add: d_add_def is_f64_def)
  have "Math_ceil (d_mul (Math_max (Fin 0) d) (Fin (real SAMPLE_RATE))) = Fin (real n)"
  proof (cases d)
    case (Fin x)
    show ?thesis
    proof (cases "0 \<le> x")
      case True
      with Fin assms(2) show ?thesis by (simp add: max_def)
    next
      case False
      then have "x * real SAMPLE_RATE \<le> 0"
        by (simp add: SAMPLE_RATE_def)
      then have "dvalue (x * real SAMPLE_RATE) \<le> 0" by (rule dvalue_nonpos)
      then have "\<lceil>dvalue (x * real SAMPLE_RATE)\<rceil> \<le> 0"
        by (simp add: ceiling_le_iff)
      moreover have "\<lceil>dvalue (x * real SAMPLE_RATE)\<rceil> = int n"
        using assms(2) Fin
        by (auto simp: d_mul_def dround_dvalue split: if_splits)
      ultimately show ?thesis using assms(3) by simp
    qed
  next
    case PosInf
    with assms(2) show ?thesis by simp
  next
    case NegInf
    with assms(2) show ?thesis by (simp add: d_mul_def SAMPLE_RATE_def)
  next
    case NaN
    with assms(2) show ?thesis by simp
  qed
  then show ?thesis unfolding z .
qed

text \<open>
  Claim C5, as amended. Let a single track start at 0, hold a buffer of the platform and
  have a double as its duration, and let \<open>n\<close> be \<open>Math.ceil(duration * SAMPLE_RATE)\<close> as the doubles give it, with
  \<open>1 \<le> n < 2 ^ 32\<close>. Then the mix has two channels of \<open>n\<close> samples; within that length,
  output channel \<open>c\<close> holds the samples of the track's channel 0 when the track is mono and
  of its channel \<open>c\<close> otherwise, and zero behind the track's last sample.
\<close>

theorem mixAudioTracks_single_track:
  assumes "startTime T = Fin 0" and "valid_buffer (buffer T)" and "is_f64 (duration T)"
    and "Math_ceil (d_mul (duration T) (Fin (real SAMPLE_RATE))) = Fin (real n)"
    and "1 \<le> n" and "n < 2 ^ 32"
  shows "\<exists>out. mixAudioTracks [T] = Some out \<and> sampleRate out = SAMPLE_RATE \<and>
     numberOfChannels out = 2 \<and> length_frames out = n \<and>
     (\<forall>c<2. length (channelData out ! c) = n \<and>
        (\<forall>j<n. channelData out ! c ! j =
           (if j < length_frames (buffer T)
            then channelData (buffer T) ! (if numberOfChannels (buffer T) = 1 then 0 else c) ! j
            else Fin 0)))"
proof -
  have ch: "1 \<le> numberOfChannels (buffer T)"
    using assms(2) by (simp add: valid_buffer_def)
  have len: "output_length [T] = Fin (real n)"
    using single_output_length [OF assms(3,4,5)]
    by (simp add: output_length_def total_duration_def assms(1))
  have src: "f32_sum (Fin 0) (contributions [T] c j) =
      (if j < length_frames (buffer T) then source_channel T c ! j else Fin 0)" for c j
  proof (cases "j < length_frames (buffer T)")
    case True
    then have "contribution c j T = Some (source_channel T c ! j)"
      by (simp add: contribution_at_zero [OF assms(1)] source_channel_valid(1) [OF assms(2)])
    moreover from this have "is_f32 (source_channel T c ! j)"
      by (rule contribution_is_f32 [OF assms(2)])
    ultimately show ?thesis
      using True by (simp add: contributions_Cons is_f32_def)
  next
    case False
    then have "contribution c j T = None"
      by (simp add: contribution_at_zero [OF assms(1)] source_channel_valid(1) [OF assms(2)])
    with False show ?thesis by (simp add: contributions_Cons)
  qed
  have sample: "f32_sum (Fin 0) (contributions [T] c j) =
      (if j < length_frames (buffer T)
       then channelData (buffer T) ! (if numberOfChannels (buffer T) = 1 then 0 else c) ! j
       else Fin 0)" if c: "c < 2" for c j
    unfolding src source_channel_first_two [OF ch c] ..
  have "mixAudioTracks [T] =
     Some \<lparr>sampleRate = SAMPLE_RATE, length_frames = n,
           channelData = [map (\<lambda>j. f32_sum (Fin 0) (contributions [T] 0 j)) [0..<n],
                          map (\<lambda>j. f32_sum (Fin 0) (contributions [T] 1 j)) [0..<n]]\<rparr>"
    using ch by (intro mix_two_channels len assms(5,6)) simp_all
  then show ?thesis
    by (simp add: numberOfChannels_def sample less_2_cases_iff)
qed

text \<open>
  Claim C5 as worded fails for a track of no frames: its duration is 0, the length passed
  to \<open>createBuffer\<close> is 0, and the call throws instead of returning a mix.
\<close>

theorem mixAudioTracks_zero_duration_track:
  "startTime \<lparr>track_id = ''z'',
      buffer = \<lparr>sampleRate = 44100, length_frames = 0, channelData = [[]]\<rparr>,
      duration = Fin 0, startTime = Fin 0\<rparr> = Fin 0 \<and>
   mixAudioTracks [\<lparr>track_id = ''z'',
      buffer = \<lparr>sampleRate = 44100, length_frames = 0, channelData = [[]]\<rparr>,
      duration = Fin 0, startTime = Fin 0\<rparr>] = None"
  by (simp add: mixAudioTracks_def createBuffer_def d_add_def d_mul_def dround_def f64_ulp_def
      f64_min_def round_half_even_def js_trunc_def)

text \<open>
  Claim C6 as worded fails for a non-empty list of tracks of no frames: the total duration
  is 0 and \<open>createBuffer\<close> throws for the length 0, so no output is allocated.
\<close>

theorem mixAudioTracks_zero_duration_list:
  "[\<lparr>track_id = ''y'',
      buffer = \<lparr>sampleRate = 44100, length_frames = 0, channelData = [[]]\<rparr>,
      duration = Fin 0, startTime = Fin 0\<rparr>,
    \<lparr>track_id = ''z'',
      buffer = \<lparr>sampleRate = 44100, length_frames = 0, channelData = [[], []]\<rparr>,
      duration = Fin 0, startTime = Fin 0\<rparr>] \<noteq> [] \<and>
   mixAudioTracks
     [\<lparr>track_id = ''y'',
        buffer = \<lparr>sampleRate = 44100, length_frames = 0, channelData = [[]]\<rparr>,
        duration = Fin 0, startTime = Fin 0\<rparr>,
      \<lparr>track_id = ''z'',
        buffer = \<lparr>sampleRate = 44100, length_frames = 0, channelData = [[], []]\<rparr>,
        duration = Fin 0, startTime = Fin 0\<rparr>] = None"
  by (simp add: mixAudioTracks_def createBuffer_def d_add_def d_mul_def dround_def f64_ulp_def
      f64_min_def round_half_even_def js_trunc_def)

text \<open>
  Claim C6, as amended. Let the list of tracks be non-empty, each buffer with at least one
  channel, and let \<open>n\<close> be the length \<open>Math.ceil(totalDuration * SAMPLE_RATE)\<close>, with
  \<open>1 \<le> n < 2 ^ 32\<close>, where \<open>totalDuration\<close> is the maximum over the tracks of the double sum
  \<open>startTime + duration\<close> (and of 0). Then the mix is a buffer of two channels of \<open>n\<close> samples;
  the sample at index \<open>j\<close> is the float32 sum, starting from zero, of the samples that the
  tracks contribute to \<open>j\<close>, where a track contributes its sample \<open>i\<close> to index
  \<open>Math.floor(startTime * SAMPLE_RATE) + i\<close>, the product being the double product. A track
  that starts at 2.0 contributes nothing below index \<open>2 * SAMPLE_RATE\<close> and its first sample
  at that index.
\<close>

theorem mixAudioTracks_placement:
  assumes "ts \<noteq> []" and "\<forall>t\<in>set ts. 1 \<le> numberOfChannels (buffer t)"
    and "output_length ts = Fin (real n)" and "1 \<le> n" and "n < 2 ^ 32"
  shows "\<exists>out. mixAudioTracks ts = Some out \<and> sampleRate out = SAMPLE_RATE \<and>
     numberOfChannels out = 2 \<and> length_frames out = n \<and>
     (\<forall>c<2. length (channelData out ! c) = n \<and>
        (\<forall>j<n. channelData out ! c ! j = f32_sum (Fin 0) (contributions ts c j))) \<and>
     (\<forall>t\<in>set ts. \<not> js_less (total_duration ts) (d_add (startTime t) (duration t))) \<and>
     (total_duration ts = Fin 0 \<or>
      (\<exists>t\<in>set ts. total_duration ts = d_add (startTime t) (duration t))) \<and>
     (\<forall>t\<in>set ts. startTime t = Fin 2 \<longrightarrow>
        start_sample t = Fin (2 * real SAMPLE_RATE) \<and>
        (\<forall>c. \<forall>j<2 * SAMPLE_RATE. contribution c j t = None) \<and>
        (\<forall>c. source_channel t c \<noteq> [] \<longrightarrow>
           contribution c (2 * SAMPLE_RATE) t = Some (source_channel t c ! 0)))"
proof -
  obtain m where m: "total_duration ts = Fin m"
    using assms(3) by (rule output_length_finite)
  have at2: "start_sample t = Fin (2 * real SAMPLE_RATE) \<and>
        (\<forall>c. \<forall>j<2 * SAMPLE_RATE. contribution c j t = None) \<and>
        (\<forall>c. source_channel t c \<noteq> [] \<longrightarrow>
           contribution c (2 * SAMPLE_RATE) t = Some (source_channel t c ! 0))"
    if "startTime t = Fin 2" for t
  proof -
    from that have "start_sample t = Fin 88200"
      by (simp add: start_sample_def SAMPLE_RATE_def d_mul_def dround_def f64_ulp_def
          f64_min_def round_half_even_def)
    then show ?thesis by (simp add: contribution_def SAMPLE_RATE_def)
  qed
  have "mixAudioTracks ts =
     Some \<lparr>sampleRate = SAMPLE_RATE, length_frames = n,
           channelData = [map (\<lambda>j. f32_sum (Fin 0) (contributions ts 0 j)) [0..<n],
                          map (\<lambda>j. f32_sum (Fin 0) (contributions ts 1 j)) [0..<n]]\<rparr>"
    by (rule mix_two_channels [OF assms])
  then show ?thesis
    using at2 total_duration_is_max [OF m]
    by (simp add: numberOfChannels_def less_2_cases_iff)
qed

text \<open>Claim C5, as amended, at a concrete input: a stereo track of two frames, mixed
  alone.\<close>

theorem mixAudioTracks_single_track_witness:
  "startTime \<lparr>track_id = ''t'',
      buffer = \<lparr>sampleRate = 44100, length_frames = 2,
                channelData = [[Fin (1 / 2), Fin (- 1 / 4)], [Fin (1 / 4), Fin 1]]\<rparr>,
      duration = Fin (6692696262570359 / 2 ^ 67), startTime = Fin 0\<rparr> = Fin 0 \<and>
   valid_buffer \<lparr>sampleRate = 44100, length_frames = 2,
                channelData = [[Fin (1 / 2), Fin (- 1 / 4)], [Fin (1 / 4), Fin 1]]\<rparr> \<and>
   is_f64 (Fin (6692696262570359 / 2 ^ 67)) \<and>
   Math_ceil (d_mul (Fin (6692696262570359 / 2 ^ 67)) (Fin (real SAMPLE_RATE))) = Fin 2 \<and>
   (\<exists>out. mixAudioTracks [\<lparr>track_id = ''t'',
      buffer = \<lparr>sampleRate = 44100, length_frames = 2,
                channelData = [[Fin (1 / 2), Fin (- 1 / 4)], [Fin (1 / 4), Fin 1]]\<rparr>,
      duration = Fin (6692696262570359 / 2 ^ 67), startTime = Fin 0\<rparr>] = Some out \<and>
      numberOfChannels out = 2 \<and> length_frames out = 2 \<and>
      channelData out ! 0 ! 0 = Fin (1 / 2) \<and> channelData out ! 0 ! 1 = Fin (- 1 / 4) \<and>
      channelData out ! 1 ! 0 = Fin (1 / 4) \<and> channelData out ! 1 ! 1 = Fin 1)"
proof -
  let ?b = "\<lparr>sampleRate = 44100, length_frames = 2,
                channelData = [[Fin (1 / 2), Fin (- 1 / 4)], [Fin (1 / 4), Fin 1]]\<rparr>"
  let ?d = "Fin (6692696262570359 / 2 ^ 67)"
  let ?T = "\<lparr>track_id = ''t'', buffer = ?b, duration = ?d, startTime = Fin 0\<rparr>"
  have v: "valid_buffer ?b"
    by (simp add: valid_buffer_def numberOfChannels_def is_f32_def fround_def f32_ulp_def
        round_half_even_def)
  then have vb: "valid_buffer (buffer ?T)" by simp
  have st: "startTime ?T = Fin 0" by simp
  have f: "is_f64 ?d"
    by (simp add: is_f64_def dround_def f64_ulp_def f64_min_def round_half_even_def)
  then have fd: "is_f64 (duration ?T)" by simp
  have l: "Math_ceil (d_mul ?d (Fin (real SAMPLE_RATE))) = Fin 2"
    by (simp add: SAMPLE_RATE_def d_mul_def dround_def f64_ulp_def f64_min_def
        round_half_even_def)
  then have ld: "Math_ceil (d_mul (duration ?T) (Fin (real SAMPLE_RATE))) = Fin (real (2::nat))"
    by simp
  from mixAudioTracks_single_track [OF st vb fd ld] obtain out where
    m: "mixAudioTracks [?T] = Some out" and n: "numberOfChannels out = 2" and
    len: "length_frames out = 2" and
    s: "\<forall>c<2. length (channelData out ! c) = 2 \<and>
        (\<forall>j<2. channelData out ! c ! j =
           (if j < length_frames (buffer ?T)
            then channelData (buffer ?T) ! (if numberOfChannels (buffer ?T) = 1 then 0 else c) ! j
            else Fin 0))"
    by auto
  have "channelData out ! c ! j = channelData ?b ! c ! j" if "c < 2" and "j < 2" for c j
    using s that by (simp add: numberOfChannels_def)
  from this [of 0 0] this [of 0 1] this [of 1 0] this [of 1 1]
  have "channelData out ! 0 ! 0 = Fin (1 / 2)" and "channelData out ! 0 ! 1 = Fin (- 1 / 4)"
    and "channelData out ! 1 ! 0 = Fin (1 / 4)" and "channelData out ! 1 ! 1 = Fin 1"
    by simp_all
  with m n len v f l show ?thesis by simp
qed

text \<open>Claim C6, as amended, at a concrete input: a one-sample track placed at 2.0 seconds
  gives 88200 zeros, then the sample.\<close>

theorem mixAudioTracks_placement_witness:
  "[\<lparr>track_id = ''t'', buffer = one_sample_buffer (1 / 2),
      duration = Fin (6692696262570359 / 2 ^ 68), startTime = Fin 2\<rparr>] \<noteq> [] \<and>
   1 \<le> numberOfChannels (one_sample_buffer (1 / 2)) \<and>
   output_length [\<lparr>track_id = ''t'', buffer = one_sample_buffer (1 / 2),
      duration = Fin (6692696262570359 / 2 ^ 68), startTime = Fin 2\<rparr>] = Fin 88201 \<and>
   (\<exists>out. mixAudioTracks [\<lparr>track_id = ''t'', buffer = one_sample_buffer (1 / 2),
      duration = Fin (6692696262570359 / 2 ^ 68), startTime = Fin 2\<rparr>] = Some out \<and>
      numberOfChannels out = 2 \<and> length_frames out = 88201 \<and>
      channelData out ! 0 ! 88199 = Fin 0 \<and> channelData out ! 0 ! 88200 = Fin (1 / 2) \<and>
      channelData out ! 1 ! 88199 = Fin 0 \<and> channelData out ! 1 ! 88200 = Fin (1 / 2))"
proof -
  define T where "T = \<lparr>track_id = ''t'', buffer = one_sample_buffer (1 / 2),
      duration = Fin (6692696262570359 / 2 ^ 68), startTime = Fin 2\<rparr>"
  have ch: "1 \<le> numberOfChannels (one_sample_buffer (1 / 2))"
    by (simp add: numberOfChannels_def one_sample_buffer_def)
  then have chs: "\<forall>t\<in>set [T]. 1 \<le> numberOfChannels (buffer t)" by (simp add: T_def)
  have ne: "[T] \<noteq> []" by simp
  have l: "output_length [T] = Fin 88201"
    by (simp add: T_def output_length_def total_duration_def SAMPLE_RATE_def d_add_def d_mul_def
        dround_def f64_ulp_def f64_min_def round_half_even_def)
  then have ln: "output_length [T] = Fin (real (88201::nat))" by simp
  from mixAudioTracks_placement [OF ne chs ln] obtain out where
    m: "mixAudioTracks [T] = Some out" and n: "numberOfChannels out = 2" and
    len: "length_frames out = 88201" and
    s: "\<forall>c<2. length (channelData out ! c) = 88201 \<and>
        (\<forall>j<88201. channelData out ! c ! j = f32_sum (Fin 0) (contributions [T] c j))"
    by auto
  have st: "start_sample T = Fin 88200"
    by (simp add: T_def start_sample_def SAMPLE_RATE_def d_mul_def dround_def f64_ulp_def
        f64_min_def round_half_even_def)
  have sc: "source_channel T c = [Fin (1 / 2)]" for c
    by (simp add: T_def source_channel_def one_sample_buffer_def numberOfChannels_def)
  have c0: "contribution c 88199 T = None" for c
    unfolding contribution_def st sc by simp
  have c1: "contribution c 88200 T = Some (Fin (1 / 2))" for c
    unfolding contribution_def st sc by simp
  have k0: "contributions [T] c 88199 = []" for c
    unfolding contributions_Cons c0 by simp
  have k1: "contributions [T] c 88200 = [Fin (1 / 2)]" for c
    unfolding contributions_Cons c1 by simp
  have f1: "fround (1 / 2) = Fin (1 / 2)"
    by (simp add: fround_def f32_ulp_def round_half_even_def)
  have v0: "channelData out ! c ! 88199 = Fin 0" if "c < 2" for c
    using s that by (simp add: k0)
  have v1: "channelData out ! c ! 88200 = Fin (1 / 2)" if "c < 2" for c
    using s that by (simp add: k1 f1)
  from v0 [of 0] v0 [of 1] v1 [of 0] v1 [of 1]
  have "channelData out ! 0 ! 88199 = Fin 0" and "channelData out ! 0 ! 88200 = Fin (1 / 2)"
    and "channelData out ! 1 ! 88199 = Fin 0" and "channelData out ! 1 ! 88200 = Fin (1 / 2)"
    by simp_all
  with m n len ch l show ?thesis unfolding T_def by simp
qed

subsection \<open>Permutations of the track list\<close>

lemma mixAudioTracks_Nil:
  "mixAudioTracks [] =
     Some \<lparr>sampleRate = SAMPLE_RATE, length_frames = SAMPLE_RATE,
           channelData = replicate 2 (replicate SAMPLE_RATE (Fin 0))\<rparr>"
proof -
  have "to_unsigned_long (Fin (real SAMPLE_RATE)) = SAMPLE_RATE"
    by (rule to_unsigned_long_nat) (simp add: SAMPLE_RATE_def)
  moreover have "SAMPLE_RATE \<noteq> 0" by (simp add: SAMPLE_RATE_def)
  ultimately show ?thesis
    by (simp add: mixAudioTracks_def createBuffer_def)
qed

lemma output_length_mset:
  "mset ts' = mset ts \<Longrightarrow> output_length ts' = output_length ts"
  using total_duration_mset [of ts' ts] by (simp add: output_length_def)

lemma mixAudioTracks_samples:
  assumes "\<forall>t\<in>set ts. 1 \<le> numberOfChannels (buffer t)" and "mixAudioTracks ts = Some out"
  shows "sampleRate out = SAMPLE_RATE"
    and "numberOfChannels out = 2"
    and "length_frames out = (if ts = [] then SAMPLE_RATE else to_unsigned_long (output_length ts))"
    and "c < 2 \<Longrightarrow> length (channelData out ! c) = length_frames out"
    and "c < 2 \<Longrightarrow> j < length_frames out \<Longrightarrow>
         channelData out ! c ! j = f32_sum (Fin 0) (contributions ts c j)"
proof -
  let ?n = "if ts = [] then SAMPLE_RATE else to_unsigned_long (output_length ts)"
  have out: "out = \<lparr>sampleRate = SAMPLE_RATE, length_frames = ?n,
           channelData = map (\<lambda>c. map (\<lambda>j. f32_sum (Fin 0) (contributions ts c j)) [0..<?n])
                             [0..<2]\<rparr>"
  proof (cases "ts = []")
    case True
    have "replicate 2 (replicate SAMPLE_RATE (Fin 0))
        = map (\<lambda>c. map (\<lambda>j. Fin 0) [0..<SAMPLE_RATE]) [0..<2]"
      by (simp add: map_replicate_const)
    with True assms(2) show ?thesis
      by (simp add: mixAudioTracks_Nil)
  next
    case False
    from mixAudioTracks_eq [OF False assms(1)] assms(2) False show ?thesis
      by (simp split: if_splits)
  qed
  show "sampleRate out = SAMPLE_RATE" by (subst out) simp
  show "numberOfChannels out = 2" by (subst out) (simp add: numberOfChannels_def)
  show "length_frames out = ?n" by (subst out) simp
  show "length (channelData out ! c) = length_frames out" if "c < 2"
    using that by (subst (1 2) out) simp
  show "channelData out ! c ! j = f32_sum (Fin 0) (contributions ts c j)"
    if "c < 2" and "j < length_frames out"
  proof -
    from that(2) have "j < ?n" by (subst (asm) out) simp
    with that(1) show ?thesis by (subst out) simp
  qed
qed

lemma mixAudioTracks_None_iff:
  assumes "\<forall>t\<in>set ts. 1 \<le> numberOfChannels (buffer t)"
  shows "mixAudioTracks ts = None \<longleftrightarrow> ts \<noteq> [] \<and> to_unsigned_long (output_length ts) = 0"
proof (cases "ts = []")
  case True
  then show ?thesis by (simp add: mixAudioTracks_Nil)
next
  case False
  from mixAudioTracks_eq [OF False assms] False show ?thesis by simp
qed

text \<open>
  Claim C3, as amended. Let the buffers of the tracks be buffers of the platform. For every
  permutation of the track list the mixer throws for both orders or for neither; the two
  mixes have the same sample rate, the same two channels and the same length; each output
  sample is the float32 sum, taken in the order of the list, of the samples that the tracks
  contribute to it, and the two orders contribute the same samples. So the two mixes agree
  at every sample that receives contributions from at most two tracks.
\<close>

theorem mixAudioTracks_permutation:
  assumes "mset ts' = mset ts" and "\<forall>t\<in>set ts. valid_buffer (buffer t)"
  shows "(mixAudioTracks ts' = None \<longleftrightarrow> mixAudioTracks ts = None) \<and>
     (\<forall>out out'. mixAudioTracks ts = Some out \<and> mixAudioTracks ts' = Some out' \<longrightarrow>
        sampleRate out' = sampleRate out \<and>
        numberOfChannels out = 2 \<and> numberOfChannels out' = 2 \<and>
        length_frames out' = length_frames out \<and>
        (\<forall>c<2. length (channelData out ! c) = length_frames out \<and>
               length (channelData out' ! c) = length_frames out \<and>
          (\<forall>j<length_frames out.
             channelData out ! c ! j = f32_sum (Fin 0) (contributions ts c j) \<and>
             channelData out' ! c ! j = f32_sum (Fin 0) (contributions ts' c j) \<and>
             mset (contributions ts' c j) = mset (contributions ts c j) \<and>
             (length (contributions ts c j) \<le> 2 \<longrightarrow>
                channelData out' ! c ! j = channelData out ! c ! j))))"
proof -
  have set_eq: "set ts' = set ts" using assms(1) by (rule mset_eq_setD)
  have emp: "ts' = [] \<longleftrightarrow> ts = []"
    using assms(1) by (metis mset_zero_iff)
  have ch: "\<forall>t\<in>set ts. 1 \<le> numberOfChannels (buffer t)"
    using assms(2) by (simp add: valid_buffer_def)
  then have ch': "\<forall>t\<in>set ts'. 1 \<le> numberOfChannels (buffer t)"
    unfolding set_eq .
  have len: "output_length ts' = output_length ts"
    using assms(1) by (rule output_length_mset)
  have none: "mixAudioTracks ts' = None \<longleftrightarrow> mixAudioTracks ts = None"
    unfolding mixAudioTracks_None_iff [OF ch] mixAudioTracks_None_iff [OF ch'] emp len ..
  have some: "sampleRate out' = sampleRate out \<and>
        numberOfChannels out = 2 \<and> numberOfChannels out' = 2 \<and>
        length_frames out' = length_frames out \<and>
        (\<forall>c<2. length (channelData out ! c) = length_frames out \<and>
               length (channelData out' ! c) = length_frames out \<and>
          (\<forall>j<length_frames out.
             channelData out ! c ! j = f32_sum (Fin 0) (contributions ts c j) \<and>
             channelData out' ! c ! j = f32_sum (Fin 0) (contributions ts' c j) \<and>
             mset (contributions ts' c j) = mset (contributions ts c j) \<and>
             (length (contributions ts c j) \<le> 2 \<longrightarrow>
                channelData out' ! c ! j = channelData out ! c ! j)))"
    if m: "mixAudioTracks ts = Some out" and m': "mixAudioTracks ts' = Some out'"
    for out out'
  proof -
    note a = mixAudioTracks_samples [OF ch m]
    note b = mixAudioTracks_samples [OF ch' m']
    have frames: "length_frames out' = length_frames out"
      unfolding a(3) b(3) emp len ..
    have sample: "channelData out ! c ! j = f32_sum (Fin 0) (contributions ts c j) \<and>
        channelData out' ! c ! j = f32_sum (Fin 0) (contributions ts' c j) \<and>
        mset (contributions ts' c j) = mset (contributions ts c j) \<and>
        (length (contributions ts c j) \<le> 2 \<longrightarrow>
           channelData out' ! c ! j = channelData out ! c ! j)"
      if c: "c < 2" and j: "j < length_frames out" for c j
    proof -
      have 1: "channelData out ! c ! j = f32_sum (Fin 0) (contributions ts c j)"
        using c j by (rule a(5))
      have 2: "channelData out' ! c ! j = f32_sum (Fin 0) (contributions ts' c j)"
        using c j unfolding frames [symmetric] by (rule b(5))
      have 3: "mset (contributions ts' c j) = mset (contributions ts c j)"
        using assms(1) by (rule mset_contributions)
      have "f32_sum (Fin 0) (contributions ts' c j) = f32_sum (Fin 0) (contributions ts c j)"
        if "length (contributions ts c j) \<le> 2"
        using 3 that contributions_is_f32 [OF assms(2)] by (rule f32_sum_two_perm)
      with 1 2 3 show ?thesis by simp
    qed
    have lens: "length (channelData out ! c) = length_frames out \<and>
        length (channelData out' ! c) = length_frames out" if c: "c < 2" for c
      using a(4) [OF c] b(4) [OF c] frames by simp
    have rate: "sampleRate out' = sampleRate out" unfolding a(1) b(1) ..
    have inner: "length (channelData out ! c) = length_frames out \<and>
               length (channelData out' ! c) = length_frames out \<and>
          (\<forall>j<length_frames out.
             channelData out ! c ! j = f32_sum (Fin 0) (contributions ts c j) \<and>
             channelData out' ! c ! j = f32_sum (Fin 0) (contributions ts' c j) \<and>
             mset (contributions ts' c j) = mset (contributions ts c j) \<and>
             (length (contributions ts c j) \<le> 2 \<longrightarrow>
                channelData out' ! c ! j = channelData out ! c ! j))" if c: "c < 2" for c
    proof (intro conjI allI)
      show "length (channelData out ! c) = length_frames out"
        using lens [OF c] by (rule conjunct1)
      show "length (channelData out' ! c) = length_frames out"
        using lens [OF c] by (rule conjunct2)
      fix j
      show "j < length_frames out \<longrightarrow>
             channelData out ! c ! j = f32_sum (Fin 0) (contributions ts c j) \<and>
             channelData out' ! c ! j = f32_sum (Fin 0) (contributions ts' c j) \<and>
             mset (contributions ts' c j) = mset (contributions ts c j) \<and>
             (length (contributions ts c j) \<le> 2 \<longrightarrow>
                channelData out' ! c ! j = channelData out ! c ! j)"
        by (rule impI) (rule sample [OF c])
    qed
    show ?thesis
    proof (intro conjI allI)
      show "sampleRate out' = sampleRate out" by (rule rate)
      show "numberOfChannels out = 2" by (rule a(2))
      show "numberOfChannels out' = 2" by (rule b(2))
      show "length_frames out' = length_frames out" by (rule frames)
      fix c
      show "c < 2 \<longrightarrow> length (channelData out ! c) = length_frames out \<and>
               length (channelData out' ! c) = length_frames out \<and>
          (\<forall>j<length_frames out.
             channelData out ! c ! j = f32_sum (Fin 0) (contributions ts c j) \<and>
             channelData out' ! c ! j = f32_sum (Fin 0) (contributions ts' c j) \<and>
             mset (contributions ts' c j) = mset (contributions ts c j) \<and>
             (length (contributions ts c j) \<le> 2 \<longrightarrow>
                channelData out' ! c ! j = channelData out ! c ! j))"
        by (rule impI) (rule inner)
    qed
  qed
  show ?thesis
  proof (rule conjI, rule none, intro allI, rule impI)
    fix out out'
    assume "mixAudioTracks ts = Some out \<and> mixAudioTracks ts' = Some out'"
    then have "mixAudioTracks ts = Some out" and "mixAudioTracks ts' = Some out'" by simp_all
    then show "sampleRate out' = sampleRate out \<and>
        numberOfChannels out = 2 \<and> numberOfChannels out' = 2 \<and>
        length_frames out' = length_frames out \<and>
        (\<forall>c<2. length (channelData out ! c) = length_frames out \<and>
               length (channelData out' ! c) = length_frames out \<and>
          (\<forall>j<length_frames out.
             channelData out ! c ! j = f32_sum (Fin 0) (contributions ts c j) \<and>
             channelData out' ! c ! j = f32_sum (Fin 0) (contributions ts' c j) \<and>
             mset (contributions ts' c j) = mset (contributions ts c j) \<and>
             (length (contributions ts c j) \<le> 2 \<longrightarrow>
                channelData out' ! c ! j = channelData out ! c ! j)))"
      by (rule some)
  qed
qed

text \<open>Claim C3, as amended, at a concrete input: two overlapping one-sample tracks, in
  both orders.\<close>

theorem mixAudioTracks_permutation_witness:
  "mset [one_sample_track ''b'' (1 / 4), one_sample_track ''a'' (1 / 2)]
     = mset [one_sample_track ''a'' (1 / 2), one_sample_track ''b'' (1 / 4)] \<and>
   valid_buffer (one_sample_buffer (1 / 2)) \<and> valid_buffer (one_sample_buffer (1 / 4)) \<and>
   contributions [one_sample_track ''a'' (1 / 2), one_sample_track ''b'' (1 / 4)] 0 0
     = [Fin (1 / 2), Fin (1 / 4)] \<and>
   contributions [one_sample_track ''b'' (1 / 4), one_sample_track ''a'' (1 / 2)] 0 0
     = [Fin (1 / 4), Fin (1 / 2)] \<and>
   mixAudioTracks [one_sample_track ''a'' (1 / 2), one_sample_track ''b'' (1 / 4)]
     = Some \<lparr>sampleRate = 44100, length_frames = 1,
             channelData = [[Fin (3 / 4)], [Fin (3 / 4)]]\<rparr> \<and>
   (\<exists>out'. mixAudioTracks [one_sample_track ''b'' (1 / 4), one_sample_track ''a'' (1 / 2)]
        = Some out' \<and>
      sampleRate out' = 44100 \<and> numberOfChannels out' = 2 \<and> length_frames out' = 1 \<and>
      length (channelData out' ! 0) = 1 \<and> length (channelData out' ! 1) = 1 \<and>
      channelData out' ! 0 ! 0 = Fin (3 / 4) \<and> channelData out' ! 1 ! 0 = Fin (3 / 4))"
proof -
  define a where "a = one_sample_track ''a'' (1 / 2)"
  define b where "b = one_sample_track ''b'' (1 / 4)"
  define M where "M = \<lparr>sampleRate = 44100, length_frames = 1,
             channelData = [[Fin (3 / 4)], [Fin (3 / 4)]]\<rparr>"
  have perm: "mset [b, a] = mset [a, b]" by simp
  have v: "valid_buffer (one_sample_buffer (1 / 2))" "valid_buffer (one_sample_buffer (1 / 4))"
    by (simp_all add: valid_buffer_def one_sample_buffer_def numberOfChannels_def is_f32_def
        fround_def f32_ulp_def round_half_even_def)
  then have valid: "\<forall>t\<in>set [a, b]. valid_buffer (buffer t)"
    by (simp add: a_def b_def one_sample_track_def)
  have cab: "contributions [a, b] c 0 = [Fin (1 / 2), Fin (1 / 4)]" for c
    unfolding a_def b_def one_sample_contributions by simp
  have cba: "contributions [b, a] c 0 = [Fin (1 / 4), Fin (1 / 2)]" for c
    unfolding a_def b_def one_sample_contributions by simp
  have sum: "f32_sum (Fin 0) [Fin (1 / 2), Fin (1 / 4)] = Fin (3 / 4)"
    by (simp add: fround_def f32_ulp_def round_half_even_def)
  have "mixAudioTracks [a, b] =
     Some \<lparr>sampleRate = 44100, length_frames = 1,
           channelData = [[f32_sum (Fin 0) (contributions [a, b] 0 0)],
                          [f32_sum (Fin 0) (contributions [a, b] 1 0)]]\<rparr>"
    by (rule one_sample_tracks) (auto simp: a_def b_def)
  then have m: "mixAudioTracks [a, b] = Some M"
    unfolding cab sum M_def .
  note p = mixAudioTracks_permutation [OF perm valid]
  from p m have "mixAudioTracks [b, a] \<noteq> None" by simp
  then obtain out' where m': "mixAudioTracks [b, a] = Some out'" by blast
  from p m m' have q: "sampleRate out' = sampleRate M \<and>
        numberOfChannels M = 2 \<and> numberOfChannels out' = 2 \<and>
        length_frames out' = length_frames M \<and>
        (\<forall>c<2. length (channelData M ! c) = length_frames M \<and>
               length (channelData out' ! c) = length_frames M \<and>
          (\<forall>j<length_frames M.
             channelData M ! c ! j = f32_sum (Fin 0) (contributions [a, b] c j) \<and>
             channelData out' ! c ! j = f32_sum (Fin 0) (contributions [b, a] c j) \<and>
             mset (contributions [b, a] c j) = mset (contributions [a, b] c j) \<and>
             (length (contributions [a, b] c j) \<le> 2 \<longrightarrow>
                channelData out' ! c ! j = channelData M ! c ! j)))"
    by blast
  have fm: "length_frames M = 1" and sm: "sampleRate M = 44100"
    and c0: "channelData M ! 0 ! 0 = Fin (3 / 4)" and c1: "channelData M ! 1 ! 0 = Fin (3 / 4)"
    by (simp_all add: M_def)
  have eq: "length (channelData out' ! c) = 1 \<and> channelData out' ! c ! 0 = channelData M ! c ! 0"
    if c: "c < 2" for c
  proof -
    from q c have A: "length (channelData out' ! c) = length_frames M"
      and B: "\<forall>j<length_frames M.
             channelData M ! c ! j = f32_sum (Fin 0) (contributions [a, b] c j) \<and>
             channelData out' ! c ! j = f32_sum (Fin 0) (contributions [b, a] c j) \<and>
             mset (contributions [b, a] c j) = mset (contributions [a, b] c j) \<and>
             (length (contributions [a, b] c j) \<le> 2 \<longrightarrow>
                channelData out' ! c ! j = channelData M ! c ! j)"
      by blast+
    have z: "0 < length_frames M" by (simp add: fm)
    have two: "length (contributions [a, b] c 0) \<le> 2" by (simp add: cab)
    from B z two have "channelData out' ! c ! 0 = channelData M ! c ! 0" by blast
    with A fm show ?thesis by simp
  qed
  from q have qs: "sampleRate out' = sampleRate M" "numberOfChannels out' = 2"
    "length_frames out' = length_frames M"
    by blast+
  have e0: "length (channelData out' ! 0) = 1" "channelData out' ! 0 ! 0 = Fin (3 / 4)"
    using eq [of 0] unfolding c0 by simp_all
  have e1: "length (channelData out' ! 1) = 1" "channelData out' ! 1 ! 0 = Fin (3 / 4)"
    using eq [of 1] unfolding c1 by simp_all
  from qs e0 e1
  have "sampleRate out' = 44100 \<and> numberOfChannels out' = 2 \<and> length_frames out' = 1 \<and>
      length (channelData out' ! 0) = 1 \<and> length (channelData out' ! 1) = 1 \<and>
      channelData out' ! 0 ! 0 = Fin (3 / 4) \<and> channelData out' ! 1 ! 0 = Fin (3 / 4)"
    by (simp add: fm sm c0 c1)
  with m' have "\<exists>out'. mixAudioTracks [b, a] = Some out' \<and>
      sampleRate out' = 44100 \<and> numberOfChannels out' = 2 \<and> length_frames out' = 1 \<and>
      length (channelData out' ! 0) = 1 \<and> length (channelData out' ! 1) = 1 \<and>
      channelData out' ! 0 ! 0 = Fin (3 / 4) \<and> channelData out' ! 1 ! 0 = Fin (3 / 4)"
    by blast
  with perm v cab [of 0] cba [of 0] m show ?thesis
    unfolding a_def b_def M_def by blast
qed

section \<open>Properties of the session\<close>








end
